theory Spec2Isabelle
  imports Main
begin

section \<open>Strings of the host language\<close>

text \<open>
  A JavaScript string is a sequence of UTF-16 code units. The embedding uses \<^typ>\<open>string\<close>,
  so it covers the code units below 256 (ASCII and Latin-1); every character class below is
  the restriction of the ECMAScript class to that range.
\<close>

definition isTerm :: "char \<Rightarrow> bool" where
  \<comment> \<open>LineTerminator: what \<open>.\<close> refuses and what \<open>^\<close> and \<open>$\<close> look at under the \<open>m\<close> flag\<close>
  "isTerm c = (c = CHR 0x0A \<or> c = CHR 0x0D)"

definition isSpace :: "char \<Rightarrow> bool" where
  \<comment> \<open>\<open>\s\<close> and the characters \<open>trim()\<close> removes: WhiteSpace and LineTerminator\<close>
  "isSpace c = (c = CHR 0x09 \<or> c = CHR 0x0A \<or> c = CHR 0x0B \<or> c = CHR 0x0C \<or> c = CHR 0x0D
     \<or> c = CHR 0x20 \<or> c = CHR 0xA0)"

definition isAlnum :: "char \<Rightarrow> bool" where
  \<comment> \<open>\<open>[a-zA-Z0-9]\<close>\<close>
  "isAlnum c = (let n = (of_char c :: nat) in
     (48 \<le> n \<and> n \<le> 57) \<or> (65 \<le> n \<and> n \<le> 90) \<or> (97 \<le> n \<and> n \<le> 122))"

definition dot :: "char \<Rightarrow> bool" where
  \<comment> \<open>\<open>.\<close> without the \<open>s\<close> flag\<close>
  "dot c = (\<not> isTerm c)"

definition anyChar :: "char \<Rightarrow> bool" where
  \<comment> \<open>\<open>[\s\S]\<close>\<close>
  "anyChar c = True"

definition notBracket :: "char \<Rightarrow> bool" where
  \<comment> \<open>\<open>[^\]]\<close>\<close>
  "notBracket c = (c \<noteq> CHR '']'')"

definition isHash :: "char \<Rightarrow> bool" where
  "isHash c = (c = CHR ''#'')"

definition lowerChar :: "char \<Rightarrow> char" where
  \<comment> \<open>\<open>toLowerCase\<close> on one code unit below 256\<close>
  "lowerChar c = (let n = (of_char c :: nat) in
     if (65 \<le> n \<and> n \<le> 90) \<or> (192 \<le> n \<and> n \<le> 222 \<and> n \<noteq> 215) then char_of (n + 32) else c)"

definition toLowerCase :: "string \<Rightarrow> string" where
  "toLowerCase s = map lowerChar s"

definition trim :: "string \<Rightarrow> string" where
  "trim s = rev (dropWhile isSpace (rev (dropWhile isSpace s)))"

definition startsWith :: "string \<Rightarrow> string \<Rightarrow> bool" where
  "startsWith s p = (take (length p) s = p)"

fun includesStr :: "string \<Rightarrow> string \<Rightarrow> bool" where
  "includesStr [] p = (p = [])"
| "includesStr (c # cs) p = (startsWith (c # cs) p \<or> includesStr cs p)"

fun splitNl :: "string \<Rightarrow> string list" where
  \<comment> \<open>\<open>s.split('\n')\<close>: never empty, the empty string gives one empty line\<close>
  "splitNl [] = [[]]"
| "splitNl (c # cs) =
     (if c = CHR 0x0A then [] # splitNl cs
      else (case splitNl cs of [] \<Rightarrow> [[c]] | l # ls \<Rightarrow> (c # l) # ls))"

fun joinNl :: "string list \<Rightarrow> string" where
  \<comment> \<open>\<open>lines.join('\n')\<close>\<close>
  "joinNl [] = []"
| "joinNl [l] = l"
| "joinNl (l # m # ls) = l @ CHR 0x0A # joinNl (m # ls)"

definition charAt :: "string \<Rightarrow> nat \<Rightarrow> char option" where
  \<comment> \<open>\<open>s[i]\<close>, \<open>undefined\<close> out of range\<close>
  "charAt s i = (if i < length s then Some (s ! i) else None)"

definition lineAt :: "string list \<Rightarrow> nat \<Rightarrow> string option" where
  \<comment> \<open>\<open>lines[i]\<close>, \<open>undefined\<close> out of range\<close>
  "lineAt ls i = (if i < length ls then Some (ls ! i) else None)"

definition slice :: "'a list \<Rightarrow> nat \<Rightarrow> nat \<Rightarrow> 'a list" where
  \<comment> \<open>\<open>xs.slice(a, b)\<close> for non-negative \<open>a\<close> and \<open>b\<close>\<close>
  "slice xs a b = take (b - a) (drop a xs)"

section \<open>Backtracking matchers for the regular expressions of the source\<close>

text \<open>
  A cursor is a position in the subject: the text already passed, reversed, and the text
  still ahead. Every piece of a pattern is a function of the continuation that matches the
  rest of the pattern, tried in the order in which the ECMAScript matcher backtracks: a
  greedy quantifier takes a character before it tries the rest, a lazy one tries the rest
  first.
\<close>

type_synonym cursor = "string \<times> string"

definition offset :: "cursor \<Rightarrow> nat" where
  "offset c = length (fst c)"

definition between :: "cursor \<Rightarrow> cursor \<Rightarrow> string" where
  \<comment> \<open>the text from the first cursor up to the second: what a capture group records\<close>
  "between c c' = rev (take (offset c' - offset c) (fst c'))"

fun lit :: "string \<Rightarrow> (cursor \<Rightarrow> 'a option) \<Rightarrow> cursor \<Rightarrow> 'a option" where
  "lit [] k cur = k cur"
| "lit (p # ps) k (b, []) = None"
| "lit (p # ps) k (b, c # a) = (if c = p then lit ps k (c # b, a) else None)"

fun one :: "(char \<Rightarrow> bool) \<Rightarrow> (cursor \<Rightarrow> 'a option) \<Rightarrow> cursor \<Rightarrow> 'a option" where
  "one P k (b, []) = None"
| "one P k (b, c # a) = (if P c then k (c # b, a) else None)"

fun greedy :: "(char \<Rightarrow> bool) \<Rightarrow> (cursor \<Rightarrow> 'a option) \<Rightarrow> cursor \<Rightarrow> 'a option" where
  \<comment> \<open>\<open>X*\<close>\<close>
  "greedy P k (b, []) = k (b, [])"
| "greedy P k (b, c # a) =
     (if P c then (case greedy P k (c # b, a) of Some r \<Rightarrow> Some r | None \<Rightarrow> k (b, c # a))
      else k (b, c # a))"

fun lazy :: "(char \<Rightarrow> bool) \<Rightarrow> (cursor \<Rightarrow> 'a option) \<Rightarrow> cursor \<Rightarrow> 'a option" where
  \<comment> \<open>\<open>X*?\<close>\<close>
  "lazy P k (b, []) = k (b, [])"
| "lazy P k (b, c # a) =
     (case k (b, c # a) of Some r \<Rightarrow> Some r
      | None \<Rightarrow> if P c then lazy P k (c # b, a) else None)"

fun upTo :: "nat \<Rightarrow> (char \<Rightarrow> bool) \<Rightarrow> (cursor \<Rightarrow> 'a option) \<Rightarrow> cursor \<Rightarrow> 'a option" where
  \<comment> \<open>\<open>X{0,n}\<close>, greedy\<close>
  "upTo 0 P k cur = k cur"
| "upTo (Suc n) P k (b, []) = k (b, [])"
| "upTo (Suc n) P k (b, c # a) =
     (if P c then (case upTo n P k (c # b, a) of Some r \<Rightarrow> Some r | None \<Rightarrow> k (b, c # a))
      else k (b, c # a))"

fun exactly :: "nat \<Rightarrow> (char \<Rightarrow> bool) \<Rightarrow> (cursor \<Rightarrow> 'a option) \<Rightarrow> cursor \<Rightarrow> 'a option" where
  \<comment> \<open>\<open>X{n}\<close>\<close>
  "exactly 0 P k cur = k cur"
| "exactly (Suc n) P k cur = one P (exactly n P k) cur"

definition oneOrMore :: "(char \<Rightarrow> bool) \<Rightarrow> (cursor \<Rightarrow> 'a option) \<Rightarrow> cursor \<Rightarrow> 'a option" where
  \<comment> \<open>\<open>X+\<close>\<close>
  "oneOrMore P k = one P (greedy P k)"

definition alt :: "(cursor \<Rightarrow> 'a option) \<Rightarrow> (cursor \<Rightarrow> 'a option) \<Rightarrow> cursor \<Rightarrow> 'a option" where
  \<comment> \<open>\<open>A|B\<close> with the rest of the pattern already inside both alternatives\<close>
  "alt m1 m2 cur = (case m1 cur of Some r \<Rightarrow> Some r | None \<Rightarrow> m2 cur)"

definition bolM :: "(cursor \<Rightarrow> 'a option) \<Rightarrow> cursor \<Rightarrow> 'a option" where
  \<comment> \<open>\<open>^\<close> under the \<open>m\<close> flag\<close>
  "bolM k cur = (case fst cur of [] \<Rightarrow> k cur | c # _ \<Rightarrow> if isTerm c then k cur else None)"

definition eolM :: "(cursor \<Rightarrow> 'a option) \<Rightarrow> cursor \<Rightarrow> 'a option" where
  \<comment> \<open>\<open>$\<close> under the \<open>m\<close> flag\<close>
  "eolM k cur = (case snd cur of [] \<Rightarrow> k cur | c # _ \<Rightarrow> if isTerm c then k cur else None)"

definition bos :: "(cursor \<Rightarrow> 'a option) \<Rightarrow> cursor \<Rightarrow> 'a option" where
  \<comment> \<open>\<open>^\<close> without the \<open>m\<close> flag\<close>
  "bos k cur = (if fst cur = [] then k cur else None)"

definition eos :: "(cursor \<Rightarrow> 'a option) \<Rightarrow> cursor \<Rightarrow> 'a option" where
  \<comment> \<open>\<open>$\<close> without the \<open>m\<close> flag\<close>
  "eos k cur = (if snd cur = [] then k cur else None)"

definition lookahead :: "((cursor \<Rightarrow> unit option) \<Rightarrow> cursor \<Rightarrow> unit option) \<Rightarrow>
    (cursor \<Rightarrow> 'a option) \<Rightarrow> cursor \<Rightarrow> 'a option" where
  \<comment> \<open>\<open>(?=X)\<close>\<close>
  "lookahead m k cur = (case m (\<lambda>_. Some ()) cur of Some _ \<Rightarrow> k cur | None \<Rightarrow> None)"

fun exec :: "(cursor \<Rightarrow> 'a option) \<Rightarrow> cursor \<Rightarrow> (cursor \<times> 'a) option" where
  \<comment> \<open>\<open>RegExp.prototype.exec\<close>: the first start position, from the cursor on, at which the
      pattern matches; the result carries that start position\<close>
  "exec m (b, []) = (case m (b, []) of Some r \<Rightarrow> Some ((b, []), r) | None \<Rightarrow> None)"
| "exec m (b, c # a) =
     (case m (b, c # a) of Some r \<Rightarrow> Some ((b, c # a), r) | None \<Rightarrow> exec m (c # b, a))"

definition start :: "string \<Rightarrow> cursor" where
  "start s = ([], s)"

definition finish :: "cursor \<Rightarrow> cursor option" where
  \<comment> \<open>the end of a pattern: the match is the text up to this cursor\<close>
  "finish cur = Some cur"

definition replaceFirst :: "(cursor \<Rightarrow> cursor option) \<Rightarrow> string \<Rightarrow> string \<Rightarrow> string" where
  \<comment> \<open>\<open>s.replace(re, r)\<close> for a pattern without the \<open>g\<close> flag and a replacement
      without \<open>$\<close>\<close>
  "replaceFirst m r s = (case exec m (start s) of
       None \<Rightarrow> s
     | Some (c, c') \<Rightarrow> rev (fst c) @ r @ snd c')"

section \<open>The patterns of the source\<close>

definition frontMatter :: "cursor \<Rightarrow> cursor option" where
  \<comment> \<open>\<open>/^---\n[\s\S]*?\n---\n/\<close>\<close>
  "frontMatter = bos (lit ''---\<newline>'' (lazy anyChar (lit ''\<newline>---\<newline>'' finish)))"

definition embedPattern :: "cursor \<Rightarrow> (string \<times> string option \<times> cursor) option" where
  \<comment> \<open>\<open>/\!\[\[(.*?)(?:#([^\]]+))?\]\]/g\<close>: the two groups and the end of the match\<close>
  "embedPattern = lit ''![['' (\<lambda>c1. lazy dot (\<lambda>c2.
       alt (lit ''#'' (\<lambda>c3. oneOrMore notBracket (\<lambda>c4.
              lit '']]'' (\<lambda>c5. Some (between c1 c2, Some (between c3 c4), c5)) c4) c3))
           (lit '']]'' (\<lambda>c5. Some (between c1 c2, None, c5))) c2) c1)"

definition specificAnchor :: "string \<Rightarrow> cursor \<Rightarrow> cursor option" where
  \<comment> \<open>\<open>new RegExp(`\\^${blockId}\\s*$`)\<close> for a block id that is literal in a pattern\<close>
  "specificAnchor blockId = lit (CHR ''^'' # blockId) (greedy isSpace (eos finish))"

definition anyAnchor :: "cursor \<Rightarrow> cursor option" where
  \<comment> \<open>\<open>/\s*\^[a-zA-Z0-9]+\s*$/g\<close>\<close>
  "anyAnchor = greedy isSpace (lit ''^'' (oneOrMore isAlnum (greedy isSpace (eos finish))))"

definition blockPattern :: "string \<Rightarrow> cursor \<Rightarrow> string option" where
  \<comment> \<open>\<open>new RegExp(`(.*?)\\s*\\^${blockId}(?:\\s|$)`, "m")\<close> for a literal block id:
      group 1\<close>
  "blockPattern blockId = (\<lambda>c0. lazy dot (\<lambda>c1. greedy isSpace (lit (CHR ''^'' # blockId)
       (alt (one isSpace (\<lambda>_. Some (between c0 c1))) (eolM (\<lambda>_. Some (between c0 c1))))) c1) c0)"

definition headingMarker :: "cursor \<Rightarrow> string option" where
  \<comment> \<open>\<open>/^(#{1,6})\s/\<close>: group 1\<close>
  "headingMarker = (\<lambda>c0. bos (one isHash (upTo 5 isHash (\<lambda>c1.
       one isSpace (\<lambda>_. Some (between c0 c1)) c1))) c0)"

definition headingLevelPattern :: "string \<Rightarrow> cursor \<Rightarrow> string option" where
  \<comment> \<open>\<open>new RegExp(`^(#{1,6})\\s+${safeHeading}`, "m")\<close>: group 1. The heading is escaped
      before it is pasted in, so it stands for itself.\<close>
  "headingLevelPattern heading = (\<lambda>c0. bolM (one isHash (upTo 5 isHash (\<lambda>c1.
       oneOrMore isSpace (lit heading (\<lambda>_. Some (between c0 c1))) c1))) c0)"

definition nextHeadingOrEol :: "nat \<Rightarrow> (cursor \<Rightarrow> unit option) \<Rightarrow> cursor \<Rightarrow> unit option" where
  \<comment> \<open>\<open>^#{1,${headingLevel}}\s|$\<close> under the \<open>m\<close> flag, the body of the lookahead\<close>
  "nextHeadingOrEol headingLevel k =
     alt (bolM (one isHash (upTo (headingLevel - 1) isHash (one isSpace k)))) (eolM k)"

definition headingPattern :: "nat \<Rightarrow> string \<Rightarrow> cursor \<Rightarrow> string option" where
  \<comment> \<open>\<open>new RegExp(`^#{${headingLevel}}\\s+${safeHeading}.*?$(\\n[\\s\\S]*?)(?=^#{1,${headingLevel}}\\s|$)`, "m")\<close>:
      group 1\<close>
  "headingPattern headingLevel heading =
     bolM (exactly headingLevel isHash (oneOrMore isSpace (lit heading (lazy dot (eolM (\<lambda>c3.
       lit ''\<newline>'' (lazy anyChar (\<lambda>c4.
         lookahead (nextHeadingOrEol headingLevel) (\<lambda>_. Some (between c3 c4)) c4)) c3))))))"

section \<open>The host and the runtime\<close>

datatype failure =
    ReadRejected    \<comment> \<open>the host's \<open>vault.read\<close> rejects; the rejection leaves the resolver\<close>
  | SyntaxError     \<comment> \<open>\<open>new RegExp\<close> throws on a malformed pattern source\<close>
  | TypeError       \<comment> \<open>a property of \<open>undefined\<close> is read\<close>

text \<open>
  The resolver reads three things from the host application: the file a link path points to,
  the text of a file, and the cached outline of a file. A file is named by its path in the
  vault.

  Looking a block id up in the cached outline is a property lookup on an object. It gives
  nothing, or a block with its start line, or some other value (a property the object
  inherits, such as \<open>constructor\<close> on a plain object), which has no \<open>position\<close>.
\<close>

type_synonym tfile = string

record headingCache =
  heading :: string
  level :: nat
  headingLine :: nat    \<comment> \<open>\<open>position.start.line\<close>\<close>

datatype blockProperty =
    BlockAt nat     \<comment> \<open>a block cache, with \<open>position.start.line\<close>\<close>
  | NoPosition      \<comment> \<open>another truthy value; its \<open>position\<close> is \<open>undefined\<close>\<close>

record cachedMetadata =
  headings :: "headingCache list option"
  blocks :: "(string \<rightharpoonup> blockProperty) option"    \<comment> \<open>\<open>fileCache.blocks[blockId]\<close>, \<open>None\<close> when falsy\<close>

text \<open>
  A block id goes into the source text of two patterns unescaped. An id without pattern
  syntax characters stands for itself, and the matchers above interpret the pattern. With
  any other id the pattern is whatever the runtime's \<open>RegExp\<close> makes of the source: the
  constructor may throw, and a pattern it accepts may match other text than the id. What
  the runtime gives for such an id is a parameter of the embedding, next to the host:
  \<^item> \<open>blockPatternExec id text\<close> is
    \<open>new RegExp(`(.*?)\\s*\\^${id}(?:\\s|$)`, "m").exec(text)\<close>: no match, or group 1 of
    the match, which is \<open>undefined\<close> when the group took no part;
  \<^item> \<open>specificAnchorReplace id text\<close> is \<open>text.replace(new RegExp(`\\^${id}\\s*$`), '')\<close>.
\<close>

record host =
  getFirstLinkpathDest :: "string \<Rightarrow> tfile option"
  vaultRead :: "tfile \<Rightarrow> string option"    \<comment> \<open>\<open>None\<close>: the promise rejects\<close>
  getFileCache :: "tfile \<Rightarrow> cachedMetadata option"
  blockPatternExec :: "string \<Rightarrow> string \<Rightarrow> failure + string option option"
  specificAnchorReplace :: "string \<Rightarrow> string \<Rightarrow> failure + string"

section \<open>The stripper\<close>

definition syntaxChars :: "char list" where
  "syntaxChars = [CHR 0x5C, CHR ''^'', CHR ''$'', CHR ''.'', CHR ''*'', CHR ''+'', CHR ''?'',
     CHR ''('', CHR '')'', CHR ''['', CHR '']'', CHR ''{'', CHR ''}'', CHR ''|'']"

definition literalSource :: "string \<Rightarrow> bool" where
  \<comment> \<open>the id has no pattern syntax character: in a pattern source it stands for itself\<close>
  "literalSource s = list_all (\<lambda>c. c \<notin> set syntaxChars) s"

definition truthy :: "string option \<Rightarrow> bool" where
  \<comment> \<open>a \<open>string | null | undefined\<close> used as a condition\<close>
  "truthy r = (case r of None \<Rightarrow> False | Some s \<Rightarrow> s \<noteq> [])"

definition stripMetadata :: "string \<Rightarrow> string" where
  \<comment> \<open>\<open>content.replace(/^---\n[\s\S]*?\n---\n/, '')\<close>\<close>
  "stripMetadata content = replaceFirst frontMatter [] content"

definition cleanBlockContent :: "host \<Rightarrow> string option \<Rightarrow> string option \<Rightarrow> failure + string" where
  \<comment> \<open>The second replace has the \<open>g\<close> flag; its pattern ends the match at the end of the
      text and does not match the empty string, so it has at most one match.\<close>
  "cleanBlockContent h content blockId =
     (if \<not> truthy content then Inr []
      else
        (case (if truthy blockId
               then (if literalSource (the blockId)
                     then Inr (replaceFirst (specificAnchor (the blockId)) [] (the content))
                     else specificAnchorReplace h (the blockId) (the content))
               else Inr (the content)) of
           Inl e \<Rightarrow> Inl e
         | Inr content1 \<Rightarrow> Inr (trim (replaceFirst anyAnchor [] content1))))"

fun cleanLines :: "host \<Rightarrow> string list \<Rightarrow> failure + string list" where
  \<comment> \<open>the loop of \<open>cleanAllBlockIds\<close>\<close>
  "cleanLines h [] = Inr []"
| "cleanLines h (l # ls) =
     (case cleanBlockContent h (Some l) None of
        Inl e \<Rightarrow> Inl e
      | Inr l' \<Rightarrow> (case cleanLines h ls of Inl e \<Rightarrow> Inl e | Inr ls' \<Rightarrow> Inr (l' # ls')))"

definition cleanAllBlockIds :: "host \<Rightarrow> string \<Rightarrow> failure + string" where
  "cleanAllBlockIds h content =
     (case cleanLines h (splitNl content) of Inl e \<Rightarrow> Inl e | Inr ls \<Rightarrow> Inr (joinNl ls))"

definition strip :: "host \<Rightarrow> string \<Rightarrow> bool \<Rightarrow> bool \<Rightarrow> failure + string" where
  \<comment> \<open>the two passes at the head of \<open>OneClickClipboard\<close> and of \<open>saveToFile\<close>\<close>
  "strip h content removeMetadata removeBlockIds =
     (let content1 = (if removeMetadata then stripMetadata content else content)
      in if removeBlockIds then cleanAllBlockIds h content1 else Inr content1)"

section \<open>The embed resolver\<close>

record rmatch =
  index :: nat             \<comment> \<open>\<open>match.index\<close>\<close>
  fullMatch :: string      \<comment> \<open>\<open>match[0]\<close>\<close>
  group1 :: string         \<comment> \<open>\<open>match[1]\<close>\<close>
  group2 :: "string option"  \<comment> \<open>\<open>match[2]\<close>, \<open>undefined\<close> when the group took no part\<close>

definition execEmbed :: "cursor \<Rightarrow> (rmatch \<times> cursor) option" where
  \<comment> \<open>one \<open>exec\<close> of the embed pattern from \<open>lastIndex\<close>: the match and the new
      \<open>lastIndex\<close>\<close>
  "execEmbed cur = (case exec embedPattern cur of
       None \<Rightarrow> None
     | Some (c, g1, g2, c') \<Rightarrow>
         Some (\<lparr>index = offset c, fullMatch = between c c', group1 = g1, group2 = g2\<rparr>, c'))"

definition filePathOf :: "rmatch \<Rightarrow> string" where
  "filePathOf m = trim (group1 m)"

definition hashPartOf :: "rmatch \<Rightarrow> string" where
  \<comment> \<open>\<open>match[2] ? match[2].trim() : ""\<close>\<close>
  "hashPartOf m = (if truthy (group2 m) then trim (the (group2 m)) else [])"

function findEndLine :: "string list \<Rightarrow> nat \<Rightarrow> nat \<Rightarrow> nat" where
  \<comment> \<open>the loop that looks for the next heading of the same or a higher rank\<close>
  "findEndLine fileLines headingLevel lineNum =
     (if lineNum < length fileLines
      then (case exec headingMarker (start (fileLines ! lineNum)) of
              Some (_, hashes) \<Rightarrow>
                if length hashes \<le> headingLevel then lineNum
                else findEndLine fileLines headingLevel (Suc lineNum)
            | None \<Rightarrow> findEndLine fileLines headingLevel (Suc lineNum))
      else length fileLines)"
  by pat_completeness auto
termination
  by (relation "measure (\<lambda>(fileLines, headingLevel, lineNum). length fileLines - lineNum)") auto

definition getHeadingContent :: "host \<Rightarrow> string \<Rightarrow> string \<Rightarrow> failure + string option" where
  "getHeadingContent h filePath headingArg =
     (case getFirstLinkpathDest h filePath of
        None \<Rightarrow> Inr None
      | Some file \<Rightarrow>
          (case vaultRead h file of
             None \<Rightarrow> Inl ReadRejected
           | Some fileContent \<Rightarrow>
               (case exec (headingLevelPattern headingArg) (start fileContent) of
                  None \<Rightarrow> Inr None
                | Some (_, hashes) \<Rightarrow>
                    (case exec (headingPattern (length hashes) headingArg) (start fileContent) of
                       None \<Rightarrow> Inr None
                     | Some (_, g1) \<Rightarrow> Inr (Some (trim g1))))))"

fun firstLineWith :: "string list \<Rightarrow> string \<Rightarrow> string option" where
  \<comment> \<open>the first line that includes the token\<close>
  "firstLineWith [] tok = None"
| "firstLineWith (line # lines) tok =
     (if includesStr line tok then Some line else firstLineWith lines tok)"

definition blockReplacement :: "host \<Rightarrow> string \<Rightarrow> cachedMetadata option \<Rightarrow> string \<Rightarrow>
    failure + string option" where
  \<comment> \<open>the branch \<open>hashPart.startsWith("^")\<close>\<close>
  "blockReplacement h fileContent fileCache blockId =
     (case (case fileCache of None \<Rightarrow> None
            | Some fc \<Rightarrow> (case blocks fc of None \<Rightarrow> None | Some bs \<Rightarrow> bs blockId)) of
        Some NoPosition \<Rightarrow> Inl TypeError
      | Some (BlockAt line) \<Rightarrow>
          (case cleanBlockContent h (lineAt (splitNl fileContent) line) (Some blockId) of
             Inl e \<Rightarrow> Inl e
           | Inr r \<Rightarrow> Inr (Some r))
      | None \<Rightarrow>
          (case (if literalSource blockId
                 then Inr (case exec (blockPattern blockId) (start fileContent) of
                             Some (_, g1) \<Rightarrow> Some (Some g1)
                           | None \<Rightarrow> None)
                 else blockPatternExec h blockId fileContent) of
             Inl e \<Rightarrow> Inl e
           | Inr (Some None) \<Rightarrow> Inl TypeError
           | Inr blockMatch \<Rightarrow>
               (let replacement = (case blockMatch of
                                     Some g1 \<Rightarrow> Some (trim (the g1))
                                   | None \<Rightarrow> None)
                in if truthy replacement then Inr replacement
                   else (case firstLineWith (splitNl fileContent) (CHR ''^'' # blockId) of
                           Some line \<Rightarrow>
                             (case cleanBlockContent h (Some line) (Some blockId) of
                                Inl e \<Rightarrow> Inl e
                              | Inr r \<Rightarrow> Inr (Some r))
                         | None \<Rightarrow> Inr replacement))))"

definition headingFromCache :: "string \<Rightarrow> cachedMetadata option \<Rightarrow> string \<Rightarrow> string option" where
  \<comment> \<open>the part of the heading branch that reads the cached outline\<close>
  "headingFromCache fileContent fileCache hashPart =
     (case fileCache of
        None \<Rightarrow> None
      | Some fc \<Rightarrow>
          (case headings fc of
             None \<Rightarrow> None
           | Some hs \<Rightarrow>
               (case find (\<lambda>h. toLowerCase (heading h) = toLowerCase hashPart) hs of
                  None \<Rightarrow> None
                | Some h \<Rightarrow>
                    (let fileLines = splitNl fileContent;
                         endLine = findEndLine fileLines (level h) (headingLine h + 1)
                     in Some (trim (joinNl (slice fileLines (headingLine h) endLine)))))))"

definition headingReplacement :: "host \<Rightarrow> string \<Rightarrow> string \<Rightarrow> cachedMetadata option \<Rightarrow>
    string \<Rightarrow> failure + string option" where
  \<comment> \<open>the branch \<open>else if (hashPart)\<close>\<close>
  "headingReplacement h filePath fileContent fileCache hashPart =
     (let replacement = headingFromCache fileContent fileCache hashPart
      in if truthy replacement then Inr replacement
         else getHeadingContent h filePath hashPart)"

definition computeReplacement :: "host \<Rightarrow> string \<Rightarrow> string \<Rightarrow> cachedMetadata option \<Rightarrow>
    string \<Rightarrow> failure + string option" where
  \<comment> \<open>the three branches that set \<open>replacement\<close>: block, heading, whole file\<close>
  "computeReplacement h filePath fileContent fileCache hashPart =
     (if startsWith hashPart ''^''
      then blockReplacement h fileContent fileCache (drop 1 hashPart)
      else if hashPart \<noteq> []
      then headingReplacement h filePath fileContent fileCache hashPart
      else Inr (Some fileContent))"

definition resolveOne :: "host \<Rightarrow> string \<Rightarrow> rmatch \<Rightarrow> failure + string" where
  \<comment> \<open>one turn of the loop of \<open>resolveBlockReferences\<close>: the new \<open>content\<close>\<close>
  "resolveOne h content m =
     (if index m = 0 then Inr content
      else
        (let filePath = filePathOf m; hashPart = hashPartOf m;
             after = index m + length (fullMatch m)
         in case getFirstLinkpathDest h filePath of
              None \<Rightarrow>
                Inr (take (index m) content @ ''[File not found: '' @ filePath @ '']''
                      @ drop after content)
            | Some targetFile \<Rightarrow>
                (case vaultRead h targetFile of
                   None \<Rightarrow> Inl ReadRejected
                 | Some fileContent \<Rightarrow>
                     (let fileCache = getFileCache h targetFile
                      in case computeReplacement h filePath fileContent fileCache hashPart of
                           Inl e \<Rightarrow> Inl e
                         | Inr replacement \<Rightarrow>
                             if truthy replacement
                             then
                               (let beforeEmbed = (if index m > 0 then charAt content (index m - 1)
                                                   else None);
                                    afterEmbed = (if after < length content then charAt content after
                                                  else None);
                                    preserveLeadingNewline =
                                      (if beforeEmbed = Some (CHR 0x0A) then ''\<newline>'' else []);
                                    preserveTrailingNewline =
                                      (if afterEmbed = Some (CHR 0x0A) then ''\<newline>'' else [])
                                in Inr (take (index m) content @ preserveLeadingNewline
                                      @ the replacement @ preserveTrailingNewline
                                      @ drop after content))
                             else
                               Inr (take (index m) content @ ''[Content not found: '' @ filePath
                                     @ (if hashPart \<noteq> [] then CHR ''#'' # hashPart else [])
                                     @ '']'' @ drop after content)))))"

fun resolveLoop :: "host \<Rightarrow> rmatch list \<Rightarrow> string \<Rightarrow> failure + string" where
  \<comment> \<open>the loop, given the matches in the order in which it visits them\<close>
  "resolveLoop h [] content = Inr content"
| "resolveLoop h (m # ms) content =
     (case resolveOne h content m of
        Inl e \<Rightarrow> Inl e
      | Inr content' \<Rightarrow> resolveLoop h ms content')"

subsection \<open>Every match moves the cursor forward\<close>

text \<open>
  \<open>matchAll\<close> runs \<open>exec\<close> again and again from the end of the last match. It comes to an
  end because a match of the embed pattern is never empty; the facts below say where the
  continuation of each piece of a pattern is called.
\<close>

definition reaches :: "cursor \<Rightarrow> string \<Rightarrow> cursor \<Rightarrow> bool" where
  "reaches c u c' = (fst c' = rev u @ fst c \<and> snd c = u @ snd c')"

lemma reaches_Nil: "reaches c [] c"
  by (simp add: reaches_def)

lemma reaches_append: "reaches c u c' \<Longrightarrow> reaches c' v c'' \<Longrightarrow> reaches c (u @ v) c''"
  by (simp add: reaches_def)

lemma lit_Some:
  "lit p k c = Some r \<Longrightarrow> \<exists>c'. reaches c p c' \<and> k c' = Some r"
proof (induction p k c rule: lit.induct)
  case (1 k cur)
  then show ?case by (auto simp: reaches_def)
next
  case (2 p ps k b)
  then show ?case by simp
next
  case (3 p ps k b c a)
  then show ?case by (fastforce simp: reaches_def split: if_splits)
qed

lemma one_Some:
  "one P k c = Some r \<Longrightarrow> \<exists>x c'. P x \<and> reaches c [x] c' \<and> k c' = Some r"
  by (induction P k c rule: one.induct) (auto simp: reaches_def split: if_splits)



lemma reaches_Cons: "reaches (c # b, a) u c' \<Longrightarrow> reaches (b, c # a) (c # u) c'"
  by (simp add: reaches_def)

lemma greedy_Some:
  "greedy P k c = Some r \<Longrightarrow> \<exists>u c'. list_all P u \<and> reaches c u c' \<and> k c' = Some r"
proof (induction P k c rule: greedy.induct)
  case (1 P k b)
  then have "list_all P [] \<and> reaches (b, []) [] (b, []) \<and> k (b, []) = Some r"
    by (simp add: reaches_def)
  then show ?case by blast
next
  case (2 P k b c a)
  show ?case
  proof (cases "P c \<and> greedy P k (c # b, a) = Some r")
    case True
    then have pc: "P c" and g: "greedy P k (c # b, a) = Some r" by simp_all
    from 2(1)[OF pc g] obtain u c' where u: "list_all P u" "reaches (c # b, a) u c'" "k c' = Some r"
      by blast
    have "list_all P (c # u) \<and> reaches (b, c # a) (c # u) c' \<and> k c' = Some r"
      using u pc reaches_Cons by simp
    then show ?thesis by blast
  next
    case False
    with 2(2) have "k (b, c # a) = Some r" by (simp split: if_splits option.splits)
    then have "list_all P [] \<and> reaches (b, c # a) [] (b, c # a) \<and> k (b, c # a) = Some r"
      by (simp add: reaches_def)
    then show ?thesis by blast
  qed
qed


lemma lazy_Some:
  "lazy P k c = Some r \<Longrightarrow> \<exists>u c'. list_all P u \<and> reaches c u c' \<and> k c' = Some r"
proof (induction P k c rule: lazy.induct)
  case (1 P k b)
  then have "list_all P [] \<and> reaches (b, []) [] (b, []) \<and> k (b, []) = Some r"
    by (simp add: reaches_def)
  then show ?case by blast
next
  case (2 P k b c a)
  show ?case
  proof (cases "k (b, c # a)")
    case (Some r')
    with 2(2) have "list_all P [] \<and> reaches (b, c # a) [] (b, c # a) \<and> k (b, c # a) = Some r"
      by (simp add: reaches_def)
    then show ?thesis by blast
  next
    case None
    with 2(2) have pc: "P c" and l: "lazy P k (c # b, a) = Some r"
      by (simp_all split: if_splits)
    from 2(1)[OF None pc l] obtain u c' where u: "list_all P u" "reaches (c # b, a) u c'" "k c' = Some r"
      by blast
    have "list_all P (c # u) \<and> reaches (b, c # a) (c # u) c' \<and> k c' = Some r"
      using u pc reaches_Cons by simp
    then show ?thesis by blast
  qed
qed

lemma alt_Some: "alt m1 m2 c = Some r \<Longrightarrow> m1 c = Some r \<or> m2 c = Some r"
  by (simp add: alt_def split: option.splits)

lemma oneOrMore_Some:
  assumes "oneOrMore P k c = Some r"
  shows "\<exists>u c'. u \<noteq> [] \<and> list_all P u \<and> reaches c u c' \<and> k c' = Some r"
proof -
  from assms have "one P (greedy P k) c = Some r" by (simp add: oneOrMore_def)
  from one_Some[OF this] obtain x c1 where x: "P x" "reaches c [x] c1" "greedy P k c1 = Some r"
    by blast
  from greedy_Some[OF x(3)] obtain u c' where u: "list_all P u" "reaches c1 u c'" "k c' = Some r"
    by blast
  have "reaches c (x # u) c'" using reaches_append[OF x(2) u(2)] by simp
  then have "x # u \<noteq> [] \<and> list_all P (x # u) \<and> reaches c (x # u) c' \<and> k c' = Some r"
    using x(1) u by simp
  then show ?thesis by blast
qed

lemma exec_Some:
  "exec m c = Some (c0, r) \<Longrightarrow> \<exists>u. reaches c u c0 \<and> m c0 = Some r"
proof (induction m c rule: exec.induct)
  case (1 m b)
  then have "reaches (b, []) [] c0 \<and> m c0 = Some r"
    by (auto simp: reaches_def split: option.splits)
  then show ?case by blast
next
  case (2 m b c a)
  show ?case
  proof (cases "m (b, c # a)")
    case None
    with 2(2) have "exec m (c # b, a) = Some (c0, r)" by simp
    from 2(1)[OF None this] obtain u where "reaches (c # b, a) u c0" "m c0 = Some r" by blast
    then have "reaches (b, c # a) (c # u) c0 \<and> m c0 = Some r" using reaches_Cons by simp
    then show ?thesis by blast
  next
    case (Some r')
    with 2(2) have "reaches (b, c # a) [] c0 \<and> m c0 = Some r" by (auto simp: reaches_def)
    then show ?thesis by blast
  qed
qed


lemma embedPattern_Some:
  assumes e: "embedPattern c = Some (g1, g2, c')"
  shows "\<exists>u. reaches c u c' \<and> 5 \<le> length u"
proof -
  let ?withScope = "\<lambda>c1 c2. lit ''#'' (\<lambda>c3. oneOrMore notBracket (\<lambda>c4.
              lit '']]'' (\<lambda>c5. Some (between c1 c2, Some (between c3 c4), c5)) c4) c3)"
  let ?noScope = "\<lambda>c1 c2. lit '']]'' (\<lambda>c5. Some (between c1 c2, None :: string option, c5))"
  have "lit ''![['' (\<lambda>c1. lazy dot (\<lambda>c2. alt (?withScope c1 c2) (?noScope c1 c2) c2) c1) c
      = Some (g1, g2, c')"
    using e unfolding embedPattern_def .
  from lit_Some[OF this] obtain c1 where c1: "reaches c ''![['' c1"
    and l: "lazy dot (\<lambda>c2. alt (?withScope c1 c2) (?noScope c1 c2) c2) c1 = Some (g1, g2, c')"
    by (elim exE conjE)
  from lazy_Some[OF l] obtain u2 c2 where c2: "reaches c1 u2 c2"
    and a: "alt (?withScope c1 c2) (?noScope c1 c2) c2 = Some (g1, g2, c')"
    by (elim exE conjE)
  from alt_Some[OF a] show ?thesis
  proof
    assume "?withScope c1 c2 c2 = Some (g1, g2, c')"
    from lit_Some[OF this] obtain c3 where c3: "reaches c2 ''#'' c3"
      and p: "oneOrMore notBracket (\<lambda>c4.
              lit '']]'' (\<lambda>c5. Some (between c1 c2, Some (between c3 c4), c5)) c4) c3 = Some (g1, g2, c')"
      by (elim exE conjE)
    from oneOrMore_Some[OF p] obtain u4 c4 where c4: "reaches c3 u4 c4"
      and q: "lit '']]'' (\<lambda>c5. Some (between c1 c2, Some (between c3 c4), c5)) c4 = Some (g1, g2, c')"
      by (elim exE conjE)
    from lit_Some[OF q] obtain c5 where c5: "reaches c4 '']]'' c5" and "c5 = c'"
      by (elim exE conjE) simp
    have "reaches c (''![['' @ u2 @ ''#'' @ u4 @ '']]'') c'"
      using c1 c2 c3 c4 c5 \<open>c5 = c'\<close> by (simp add: reaches_def)
    moreover have "5 \<le> length (''![['' @ u2 @ ''#'' @ u4 @ '']]'')" by simp
    ultimately show ?thesis by blast
  next
    assume "?noScope c1 c2 c2 = Some (g1, g2, c')"
    from lit_Some[OF this] obtain c5 where c5: "reaches c2 '']]'' c5" and "c5 = c'"
      by (elim exE conjE) simp
    have "reaches c (''![['' @ u2 @ '']]'') c'"
      using c1 c2 c5 \<open>c5 = c'\<close> by (simp add: reaches_def)
    moreover have "5 \<le> length (''![['' @ u2 @ '']]'')" by simp
    ultimately show ?thesis by blast
  qed
qed

lemma between_reaches: "reaches c u c' \<Longrightarrow> between c c' = u"
  by (simp add: reaches_def between_def offset_def)

lemma execEmbed_Some:
  assumes e: "execEmbed cur = Some (m, cur')"
  shows "\<exists>u. reaches cur (u @ fullMatch m) cur' \<and> index m = offset cur + length u
           \<and> 5 \<le> length (fullMatch m)"
proof -
  from e obtain c0 g1 g2 where x: "exec embedPattern cur = Some (c0, g1, g2, cur')"
    and m: "m = \<lparr>index = offset c0, fullMatch = between c0 cur', group1 = g1, group2 = g2\<rparr>"
    by (auto simp: execEmbed_def split: option.splits)
  from exec_Some[OF x] obtain u where u: "reaches cur u c0"
    and p: "embedPattern c0 = Some (g1, g2, cur')"
    by (elim exE conjE)
  from embedPattern_Some[OF p] obtain v where v: "reaches c0 v cur'" "5 \<le> length v"
    by (elim exE conjE)
  have "fullMatch m = v" using m between_reaches[OF v(1)] by simp
  moreover have "index m = offset cur + length u" using m u by (simp add: reaches_def offset_def)
  moreover have "reaches cur (u @ v) cur'" using reaches_append[OF u v(1)] .
  ultimately have "reaches cur (u @ fullMatch m) cur' \<and> index m = offset cur + length u
      \<and> 5 \<le> length (fullMatch m)"
    using v(2) by simp
  then show ?thesis by blast
qed

lemma execEmbed_shorter:
  "execEmbed cur = Some (m, cur') \<Longrightarrow> length (snd cur') < length (snd cur)"
  using execEmbed_Some[of cur m cur'] by (auto simp: reaches_def)

function matchAllFrom :: "cursor \<Rightarrow> rmatch list" where
  \<comment> \<open>the iterator of \<open>content.matchAll(embedPattern)\<close> with \<open>lastIndex\<close> at the cursor. The
      step it takes after an empty match is left out: this pattern has no empty match.\<close>
  "matchAllFrom cur =
     (case execEmbed cur of
        None \<Rightarrow> []
      | Some (m, cur') \<Rightarrow> m # matchAllFrom cur')"
  by pat_completeness auto
termination
proof (relation "measure (\<lambda>cur. length (snd cur))")
  show "wf (measure (\<lambda>cur. length (snd cur)))" by simp
next
  fix cur :: cursor and x m cur'
  assume "execEmbed cur = Some x" and "(m, cur') = x"
  then have "execEmbed cur = Some (m, cur')" by simp
  from execEmbed_shorter[OF this] show "(cur', cur) \<in> measure (\<lambda>cur. length (snd cur))"
    by simp
qed

definition matchAll :: "string \<Rightarrow> rmatch list" where
  \<comment> \<open>\<open>Array.from(content.matchAll(embedPattern))\<close>\<close>
  "matchAll content = matchAllFrom (start content)"

definition resolveBlockReferences :: "host \<Rightarrow> string \<Rightarrow> failure + string" where
  \<comment> \<open>the loop runs from the last match to the first\<close>
  "resolveBlockReferences h content = resolveLoop h (rev (matchAll content)) content"

section \<open>A sample vault\<close>

text \<open>
  One note, \<open>Doc\<close>, with two headings and a block anchor; an empty note \<open>E\<close>; no other
  note. The first vault has no cached outline, the second has the outline of \<open>Doc\<close>, its
  blocks in a plain object. Both are built over any runtime \<open>rt\<close>: they set the three
  things the host provides and take the pattern engine of \<open>rt\<close>.
\<close>

definition sampleDoc :: string where
  "sampleDoc = ''# A\<newline>line1\<newline>  line2 ^abc\<newline># B\<newline>tail''"

definition sampleVault :: "host \<Rightarrow> host" where
  "sampleVault rt = \<lparr>
     getFirstLinkpathDest =
       (\<lambda>p. if p = ''Doc'' then Some ''Doc.md'' else if p = ''E'' then Some ''E.md'' else None),
     vaultRead =
       (\<lambda>f. if f = ''Doc.md'' then Some sampleDoc else if f = ''E.md'' then Some [] else None),
     getFileCache = (\<lambda>f. None),
     blockPatternExec = blockPatternExec rt,
     specificAnchorReplace = specificAnchorReplace rt\<rparr>"

definition inheritedNames :: "string list" where
  \<comment> \<open>the properties every plain object inherits\<close>
  "inheritedNames = [''constructor'', ''toString'', ''valueOf'', ''hasOwnProperty'',
     ''isPrototypeOf'', ''propertyIsEnumerable'', ''toLocaleString'', ''__proto__'',
     ''__defineGetter__'', ''__defineSetter__'', ''__lookupGetter__'', ''__lookupSetter__'']"

definition plainObject :: "(string \<rightharpoonup> nat) \<Rightarrow> (string \<rightharpoonup> blockProperty)" where
  \<comment> \<open>property lookup on a plain object whose own properties are block caches\<close>
  "plainObject own b =
     (case own b of
        Some line \<Rightarrow> Some (BlockAt line)
      | None \<Rightarrow> if b \<in> set inheritedNames then Some NoPosition else None)"

definition sampleCache :: cachedMetadata where
  "sampleCache = \<lparr>
     headings = Some [\<lparr>heading = ''A'', level = 1, headingLine = 0\<rparr>,
                      \<lparr>heading = ''B'', level = 1, headingLine = 3\<rparr>],
     blocks = Some (plainObject (\<lambda>b. if b = ''abc'' then Some 2 else None))\<rparr>"

definition indexedVault :: "host \<Rightarrow> host" where
  "indexedVault rt = (sampleVault rt)\<lparr>getFileCache :=
     (\<lambda>f. if f = ''Doc.md'' then Some sampleCache else None)\<rparr>"

lemma sampleVault_engine:
  "blockPatternExec (sampleVault rt) = blockPatternExec rt"
  "specificAnchorReplace (sampleVault rt) = specificAnchorReplace rt"
  "blockPatternExec (indexedVault rt) = blockPatternExec rt"
  "specificAnchorReplace (indexedVault rt) = specificAnchorReplace rt"
  by (simp_all add: sampleVault_def indexedVault_def)

section \<open>The matches are disjoint spans of the text, in ascending order\<close>

fun spansFrom :: "nat \<Rightarrow> string \<Rightarrow> rmatch list \<Rightarrow> bool" where
  "spansFrom pos content [] = True"
| "spansFrom pos content (m # ms) =
     (pos \<le> index m \<and> index m + length (fullMatch m) \<le> length content
      \<and> fullMatch m = take (length (fullMatch m)) (drop (index m) content)
      \<and> spansFrom (index m + length (fullMatch m)) content ms)"

lemma matchAllFrom_spans:
  "rev (fst cur) @ snd cur = content \<Longrightarrow> spansFrom (offset cur) content (matchAllFrom cur)"
proof (induction cur rule: matchAllFrom.induct)
  case (1 cur)
  show ?case
  proof (cases "execEmbed cur")
    case None
    then show ?thesis by simp
  next
    case (Some x)
    obtain m cur' where x: "x = (m, cur')" by (cases x)
    with Some have e: "execEmbed cur = Some (m, cur')" by simp
    from execEmbed_Some[OF e] obtain u where u: "reaches cur (u @ fullMatch m) cur'"
      and i: "index m = offset cur + length u"
      by (elim exE conjE)
    have f: "fst cur' = rev (fullMatch m) @ rev u @ fst cur" and s: "snd cur = u @ fullMatch m @ snd cur'"
      using u by (simp_all add: reaches_def)
    have c: "content = rev (fst cur) @ u @ fullMatch m @ snd cur'" using 1(2) s by simp
    have inv: "rev (fst cur') @ snd cur' = content" using f c by simp
    have o: "offset cur' = index m + length (fullMatch m)" using f i by (simp add: offset_def)
    have "spansFrom (offset cur') content (matchAllFrom cur')"
      using 1(1)[OF Some x[symmetric] inv] .
    moreover have "index m + length (fullMatch m) \<le> length content"
      using c i by (simp add: offset_def)
    moreover have "fullMatch m = take (length (fullMatch m)) (drop (index m) content)"
      using c i by (simp add: offset_def)
    ultimately show ?thesis using e i o by simp
  qed
qed

lemma matchAll_spans: "spansFrom 0 content (matchAll content)"
  using matchAllFrom_spans[of "start content" content] by (simp add: matchAll_def start_def offset_def)

lemma spansFrom_index: "spansFrom pos content ms \<Longrightarrow> m \<in> set ms \<Longrightarrow>
    pos \<le> index m \<and> index m \<le> length content"
proof (induction ms arbitrary: pos)
  case Nil
  then show ?case by simp
next
  case (Cons a ms)
  show ?case
  proof (cases "m = a")
    case True
    then show ?thesis using Cons.prems by simp
  next
    case False
    then have "m \<in> set ms" using Cons.prems by simp
    moreover have "spansFrom (index a + length (fullMatch a)) content ms" using Cons.prems by simp
    ultimately have "index a + length (fullMatch a) \<le> index m \<and> index m \<le> length content"
      using Cons.IH by blast
    moreover have "pos \<le> index a" using Cons.prems by simp
    ultimately show ?thesis by simp
  qed
qed

lemma spansFrom_sorted: "spansFrom pos content ms \<Longrightarrow> sorted_wrt (\<lambda>a b. index a \<le> index b) ms"
proof (induction ms arbitrary: pos)
  case Nil
  then show ?case by simp
next
  case (Cons m ms)
  then have "\<forall>m' \<in> set ms. index m \<le> index m'"
    using spansFrom_index[of "index m + length (fullMatch m)" content ms] by fastforce
  then show ?case using Cons by auto
qed


lemma resolveOne_shape:
  assumes "resolveOne h content m = Inr c" and "index m \<noteq> 0"
  shows "\<exists>r. c = take (index m) content @ r @ drop (index m + length (fullMatch m)) content"
proof (cases "getFirstLinkpathDest h (filePathOf m)")
  case None
  then have "c = take (index m) content @ (''[File not found: '' @ filePathOf m @ '']'')
      @ drop (index m + length (fullMatch m)) content"
    using assms by (simp add: resolveOne_def Let_def)
  then show ?thesis by blast
next
  case (Some targetFile)
  show ?thesis
  proof (cases "vaultRead h targetFile")
    case None
    then show ?thesis using assms Some by (simp add: resolveOne_def Let_def)
  next
    case (Some fileContent)
    let ?rep = "computeReplacement h (filePathOf m) fileContent (getFileCache h targetFile)
        (hashPartOf m)"
    show ?thesis
    proof (cases ?rep)
      case (Inl e)
      then show ?thesis using assms \<open>getFirstLinkpathDest h (filePathOf m) = Some targetFile\<close> Some
        by (simp add: resolveOne_def Let_def)
    next
      case (Inr replacement)
      show ?thesis
      proof (cases "truthy replacement")
        case True
        then have "c = take (index m) content
            @ ((if charAt content (index m - 1) = Some (CHR 0x0A) then ''\<newline>'' else [])
               @ the replacement
               @ (if (if index m + length (fullMatch m) < length content
                      then charAt content (index m + length (fullMatch m)) else None) = Some (CHR 0x0A)
                  then ''\<newline>'' else []))
            @ drop (index m + length (fullMatch m)) content"
          using assms \<open>getFirstLinkpathDest h (filePathOf m) = Some targetFile\<close> Some Inr
          by (simp add: resolveOne_def Let_def)
        then show ?thesis by blast
      next
        case False
        then have "c = take (index m) content
            @ (''[Content not found: '' @ filePathOf m
               @ (if hashPartOf m \<noteq> [] then CHR ''#'' # hashPartOf m else []) @ '']'')
            @ drop (index m + length (fullMatch m)) content"
          using assms \<open>getFirstLinkpathDest h (filePathOf m) = Some targetFile\<close> Some Inr
          by (simp add: resolveOne_def Let_def)
        then show ?thesis by blast
      qed
    qed
  qed
qed

lemma resolveOne_prefix:
  assumes "resolveOne h content m = Inr c" and "n \<le> index m" and "index m \<le> length content"
  shows "take n c = take n content \<and> index m \<le> length c"
proof (cases "index m = 0")
  case True
  then show ?thesis using assms by (simp add: resolveOne_def)
next
  case False
  from resolveOne_shape[OF assms(1) False] obtain r where
    "c = take (index m) content @ r @ drop (index m + length (fullMatch m)) content" by blast
  then show ?thesis using assms(2,3) by simp
qed

lemma resolveLoop_prefix:
  "resolveLoop h ms content = Inr out \<Longrightarrow> sorted_wrt (\<lambda>a b. index b \<le> index a) ms \<Longrightarrow>
   (\<And>m. m \<in> set ms \<Longrightarrow> n \<le> index m \<and> index m \<le> length content) \<Longrightarrow>
   take n out = take n content"
proof (induction ms arbitrary: content)
  case Nil
  then show ?case by simp
next
  case (Cons m ms)
  from Cons.prems(1) obtain c where c: "resolveOne h content m = Inr c"
    and l: "resolveLoop h ms c = Inr out"
    by (auto split: sum.splits)
  have m: "n \<le> index m" "index m \<le> length content" using Cons.prems(3)[of m] by simp_all
  from resolveOne_prefix[OF c m] have p: "take n c = take n content" and len: "index m \<le> length c"
    by simp_all
  have s: "sorted_wrt (\<lambda>a b. index b \<le> index a) ms" using Cons.prems(2) by simp
  have "\<And>m'. m' \<in> set ms \<Longrightarrow> n \<le> index m' \<and> index m' \<le> length c"
  proof -
    fix m' assume "m' \<in> set ms"
    then have "index m' \<le> index m" "n \<le> index m'"
      using Cons.prems(2) Cons.prems(3)[of m'] by auto
    then show "n \<le> index m' \<and> index m' \<le> length c" using len by simp
  qed
  from Cons.IH[OF l s this] show ?case using p by simp
qed

lemma resolveLoop_append:
  "resolveLoop h (xs @ ys) content =
     (case resolveLoop h xs content of Inl e \<Rightarrow> Inl e | Inr c \<Rightarrow> resolveLoop h ys c)"
  by (induction xs arbitrary: content) (auto split: sum.splits)

section \<open>When the resolver returns\<close>

text \<open>
  The resolver has no \<open>try\<close>: it returns a text unless something it calls throws. That is
  a read the host rejects, a pattern source the runtime refuses or a group it leaves
  undefined, or a property of the cached blocks that is no block. With a host and a runtime
  where none of these happens, the resolver returns a text on every input.
\<close>

lemma cleanBlockContent_returns:
  assumes "\<And>b t. \<exists>r. specificAnchorReplace h b t = Inr r"
  shows "\<exists>r. cleanBlockContent h content blockId = Inr r"
proof -
  obtain r where "specificAnchorReplace h (the blockId) (the content) = Inr r"
    using assms by blast
  then show ?thesis by (simp add: cleanBlockContent_def)
qed

lemma blockReplacement_returns:
  assumes cache: "\<And>fc bs. fileCache = Some fc \<Longrightarrow> blocks fc = Some bs \<Longrightarrow> bs blockId \<noteq> Some NoPosition"
    and exec: "blockPatternExec h blockId fileContent = Inr None
        \<or> (\<exists>g. blockPatternExec h blockId fileContent = Inr (Some (Some g)))"
    and repl: "\<And>b t. \<exists>r. specificAnchorReplace h b t = Inr r"
  shows "\<exists>r. blockReplacement h fileContent fileCache blockId = Inr r"
proof -
  define look where "look = (case fileCache of None \<Rightarrow> None
      | Some fc \<Rightarrow> (case blocks fc of None \<Rightarrow> None | Some bs \<Rightarrow> bs blockId))"
  define bm where "bm = (if literalSource blockId
      then Inr (case exec (blockPattern blockId) (start fileContent) of
                  Some (_, g1) \<Rightarrow> Some (Some g1)
                | None \<Rightarrow> None)
      else blockPatternExec h blockId fileContent)"
  have c: "\<And>content. \<exists>r. cleanBlockContent h content (Some blockId) = Inr r"
    using cleanBlockContent_returns[OF repl] by blast
  have l: "look \<noteq> Some NoPosition"
    using cache by (auto simp: look_def split: option.splits)
  have b: "bm = Inr None \<or> (\<exists>g. bm = Inr (Some (Some g)))"
    using exec by (auto simp: bm_def split: option.splits)
  show ?thesis
  proof (cases look)
    case None
    from b show ?thesis
    proof
      assume "bm = Inr None"
      then show ?thesis
      proof (cases "firstLineWith (splitNl fileContent) (CHR ''^'' # blockId)")
        case None
        then show ?thesis
          using \<open>look = None\<close> \<open>bm = Inr None\<close>
          unfolding blockReplacement_def look_def[symmetric] bm_def[symmetric]
          by (simp add: Let_def truthy_def)
      next
        case (Some line)
        obtain r where "cleanBlockContent h (Some line) (Some blockId) = Inr r" using c by blast
        then show ?thesis
          using Some \<open>look = None\<close> \<open>bm = Inr None\<close>
          unfolding blockReplacement_def look_def[symmetric] bm_def[symmetric]
          by (simp add: Let_def truthy_def)
      qed
    next
      assume "\<exists>g. bm = Inr (Some (Some g))"
      then obtain g where g: "bm = Inr (Some (Some g))" by blast
      show ?thesis
      proof (cases "firstLineWith (splitNl fileContent) (CHR ''^'' # blockId)")
        case None
        then show ?thesis
          using \<open>look = None\<close> g
          unfolding blockReplacement_def look_def[symmetric] bm_def[symmetric]
          by (simp add: Let_def)
      next
        case (Some line)
        obtain r where "cleanBlockContent h (Some line) (Some blockId) = Inr r" using c by blast
        then show ?thesis
          using Some \<open>look = None\<close> g
          unfolding blockReplacement_def look_def[symmetric] bm_def[symmetric]
          by (simp add: Let_def)
      qed
    qed
  next
    case (Some p)
    then obtain line where p: "look = Some (BlockAt line)" using l by (cases p) auto
    obtain r where "cleanBlockContent h (lineAt (splitNl fileContent) line) (Some blockId) = Inr r"
      using c by blast
    then show ?thesis
      using p unfolding blockReplacement_def look_def[symmetric] bm_def[symmetric] by simp
  qed
qed

lemma getHeadingContent_returns:
  assumes "\<And>f. getFirstLinkpathDest h filePath = Some f \<Longrightarrow> \<exists>t. vaultRead h f = Some t"
  shows "\<exists>r. getHeadingContent h filePath headingArg = Inr r"
proof (cases "getFirstLinkpathDest h filePath")
  case None
  then show ?thesis by (simp add: getHeadingContent_def)
next
  case (Some f)
  then obtain t where "vaultRead h f = Some t" using assms by blast
  then show ?thesis using Some by (simp add: getHeadingContent_def split: option.splits)
qed

lemma resolveOne_returns:
  assumes read: "\<And>p f. getFirstLinkpathDest h p = Some f \<Longrightarrow> \<exists>t. vaultRead h f = Some t"
    and cache: "\<And>f fc bs b. getFileCache h f = Some fc \<Longrightarrow> blocks fc = Some bs \<Longrightarrow>
        bs b \<noteq> Some NoPosition"
    and exec: "\<And>b t. blockPatternExec h b t = Inr None
        \<or> (\<exists>g. blockPatternExec h b t = Inr (Some (Some g)))"
    and repl: "\<And>b t. \<exists>r. specificAnchorReplace h b t = Inr r"
  shows "\<exists>c. resolveOne h content m = Inr c"
proof (cases "index m = 0")
  case True
  then show ?thesis by (simp add: resolveOne_def)
next
  case False
  show ?thesis
  proof (cases "getFirstLinkpathDest h (filePathOf m)")
    case None
    then show ?thesis using False by (simp add: resolveOne_def Let_def)
  next
    case (Some f)
    then obtain t where t: "vaultRead h f = Some t" using read by blast
    have blk: "\<exists>r. blockReplacement h t (getFileCache h f) b = Inr r" for b
    proof (rule blockReplacement_returns)
      fix fc bs assume "getFileCache h f = Some fc" and "blocks fc = Some bs"
      then show "bs b \<noteq> Some NoPosition" by (rule cache)
    next
      show "blockPatternExec h b t = Inr None
          \<or> (\<exists>g. blockPatternExec h b t = Inr (Some (Some g)))" by (rule exec)
    next
      fix b' t' show "\<exists>r. specificAnchorReplace h b' t' = Inr r" by (rule repl)
    qed
    have hdg: "\<exists>r. getHeadingContent h (filePathOf m) a = Inr r" for a
    proof (rule getHeadingContent_returns)
      fix f' assume "getFirstLinkpathDest h (filePathOf m) = Some f'"
      then show "\<exists>t. vaultRead h f' = Some t" by (rule read)
    qed
    have "\<exists>r. computeReplacement h (filePathOf m) t (getFileCache h f) (hashPartOf m) = Inr r"
      unfolding computeReplacement_def headingReplacement_def Let_def
      using blk hdg by simp
    then obtain r where
      "computeReplacement h (filePathOf m) t (getFileCache h f) (hashPartOf m) = Inr r" by blast
    then show ?thesis using False Some t by (simp add: resolveOne_def Let_def)
  qed
qed

lemma resolveLoop_returns:
  assumes "\<And>c m. \<exists>c'. resolveOne h c m = Inr c'"
  shows "\<exists>out. resolveLoop h ms content = Inr out"
proof (induction ms arbitrary: content)
  case Nil
  then show ?case by simp
next
  case (Cons m ms)
  obtain c' where "resolveOne h content m = Inr c'" using assms by blast
  then show ?case using Cons.IH[of c'] by simp
qed

lemma resolveBlockReferences_returns:
  assumes "\<And>p f. getFirstLinkpathDest h p = Some f \<Longrightarrow> \<exists>t. vaultRead h f = Some t"
    and "\<And>f fc bs b. getFileCache h f = Some fc \<Longrightarrow> blocks fc = Some bs \<Longrightarrow>
        bs b \<noteq> Some NoPosition"
    and "\<And>b t. blockPatternExec h b t = Inr None
        \<or> (\<exists>g. blockPatternExec h b t = Inr (Some (Some g)))"
    and "\<And>b t. \<exists>r. specificAnchorReplace h b t = Inr r"
  shows "\<exists>out. resolveBlockReferences h content = Inr out"
  unfolding resolveBlockReferences_def
proof (rule resolveLoop_returns)
  fix c m
  show "\<exists>c'. resolveOne h c m = Inr c'"
  proof (rule resolveOne_returns)
    fix p f assume "getFirstLinkpathDest h p = Some f"
    then show "\<exists>t. vaultRead h f = Some t" by (rule assms(1))
  next
    fix f fc bs b assume "getFileCache h f = Some fc" and "blocks fc = Some bs"
    then show "bs b \<noteq> Some NoPosition" by (rule assms(2))
  next
    fix b t show "blockPatternExec h b t = Inr None
        \<or> (\<exists>g. blockPatternExec h b t = Inr (Some (Some g)))" by (rule assms(3))
  next
    fix b t show "\<exists>r. specificAnchorReplace h b t = Inr r" by (rule assms(4))
  qed
qed

section \<open>Text without directives\<close>

lemma startsWith_Cons:
  "startsWith (c # a) (p # ps) = (c = p \<and> startsWith a ps)"
  by (simp add: startsWith_def)

lemma lit_None: "\<not> startsWith (snd c) p \<Longrightarrow> lit p k c = None"
proof (induction p k c rule: lit.induct)
  case (1 k cur)
  then show ?case by (simp add: startsWith_def)
next
  case (2 p ps k b)
  then show ?case by simp
next
  case (3 p ps k b c a)
  then show ?case by (simp add: startsWith_Cons)
qed

lemma exec_lit_None: "\<not> includesStr a p \<Longrightarrow> exec (lit p k) (b, a) = None"
proof (induction a arbitrary: b)
  case Nil
  then have "\<not> startsWith (snd (b, [])) p" by (simp add: startsWith_def)
  then have "lit p k (b, []) = None" by (rule lit_None)
  then show ?case by simp
next
  case (Cons c a)
  then have "\<not> startsWith (snd (b, c # a)) p" and n: "\<not> includesStr a p" by simp_all
  then have "lit p k (b, c # a) = None" by (intro lit_None)
  moreover have "exec (lit p k) (c # b, a) = None" using n by (rule Cons.IH)
  ultimately show ?case by simp
qed

lemma no_marker_no_match:
  assumes "\<not> includesStr content ''![[''"
  shows "matchAll content = []"
proof -
  have "exec embedPattern ([], content) = None"
    unfolding embedPattern_def using assms by (rule exec_lit_None)
  then show ?thesis by (simp add: matchAll_def start_def execEmbed_def)
qed

text \<open>
  C9. A text in which the pattern finds no directive is returned as it is, whatever the
  vault holds.
\<close>

theorem no_directive_identity:
  "matchAll content = [] \<Longrightarrow> resolveBlockReferences h content = Inr content"
  by (simp add: resolveBlockReferences_def)

theorem no_directive_identity_witness:
  "\<forall>rt.
   matchAll ''see [[Doc]] and !Doc'' = []
    \<and> resolveBlockReferences (sampleVault rt) ''see [[Doc]] and !Doc'' = Inr ''see [[Doc]] and !Doc''"
proof (rule allI)
  fix rt
  show "matchAll ''see [[Doc]] and !Doc'' = []
     \<and> resolveBlockReferences (sampleVault rt) ''see [[Doc]] and !Doc'' = Inr ''see [[Doc]] and !Doc''"
  proof -
    have m: "matchAll ''see [[Doc]] and !Doc'' = []" by code_simp
    from no_directive_identity[OF m] m show ?thesis by simp
  qed
qed

section \<open>A directive at the start of the text\<close>

text \<open>
  C5. The loop skips a match whose index is 0. When the text starts with a directive, the
  resolver runs the loop on the other matches only: the first directive is not looked up,
  nothing is put in its place, and no turn of the loop throws on its account. A text whose
  only directive stands at its start comes back as it was, whatever the host and the
  runtime. With more directives, the resolver returns exactly when the loop on the others
  returns (see \<open>resolveBlockReferences_returns\<close>), and the text it returns starts with
  the first directive as it stood.
\<close>

theorem leading_directive_survives:
  assumes "matchAll content = m # ms" and "index m = 0"
  shows "resolveBlockReferences h content = resolveLoop h (rev ms) content
    \<and> fullMatch m = take (length (fullMatch m)) content
    \<and> (\<forall>out. resolveBlockReferences h content = Inr out \<longrightarrow>
          take (length (fullMatch m)) out = fullMatch m)
    \<and> (ms = [] \<longrightarrow> resolveBlockReferences h content = Inr content)"
proof -
  have skip: "\<And>c. resolveOne h c m = Inr c" using assms(2) by (simp add: resolveOne_def)
  have r: "resolveBlockReferences h content = resolveLoop h (rev ms) content"
    using assms(1) skip
    by (simp add: resolveBlockReferences_def resolveLoop_append split: sum.splits)
  have sp: "spansFrom 0 content (m # ms)" using matchAll_spans[of content] assms(1) by simp
  then have f: "fullMatch m = take (length (fullMatch m)) content"
    and rest: "spansFrom (length (fullMatch m)) content ms"
    using assms(2) by simp_all
  have sorted: "sorted_wrt (\<lambda>a b. index b \<le> index a) (rev ms)"
    using spansFrom_sorted[OF rest] by (simp add: sorted_wrt_rev)
  have bounds: "\<And>m'. m' \<in> set (rev ms) \<Longrightarrow>
      length (fullMatch m) \<le> index m' \<and> index m' \<le> length content"
    using spansFrom_index[OF rest] by simp
  have "\<forall>out. resolveBlockReferences h content = Inr out \<longrightarrow>
      take (length (fullMatch m)) out = fullMatch m"
  proof (intro allI impI)
    fix out assume "resolveBlockReferences h content = Inr out"
    then have "resolveLoop h (rev ms) content = Inr out" using r by simp
    from resolveLoop_prefix[OF this sorted bounds]
    show "take (length (fullMatch m)) out = fullMatch m" using f by simp
  qed
  moreover have "ms = [] \<longrightarrow> resolveBlockReferences h content = Inr content"
    using r by simp
  ultimately show ?thesis using r f by blast
qed

theorem leading_directive_survives_witness:
  "\<forall>h rt.
   matchAll ''![[Doc#^abc]] tail'' =
      [\<lparr>index = 0, fullMatch = ''![[Doc#^abc]]'', group1 = ''Doc'', group2 = Some ''^abc''\<rparr>]
    \<and> resolveBlockReferences h ''![[Doc#^abc]] tail'' = Inr ''![[Doc#^abc]] tail''
    \<and> matchAll ''![[Missing]] x ![[Doc#^abc]]'' =
      [\<lparr>index = 0, fullMatch = ''![[Missing]]'', group1 = ''Missing'', group2 = None\<rparr>,
       \<lparr>index = 15, fullMatch = ''![[Doc#^abc]]'', group1 = ''Doc'', group2 = Some ''^abc''\<rparr>]
    \<and> resolveBlockReferences (indexedVault rt) ''![[Missing]] x ![[Doc#^abc]]''
        = Inr ''![[Missing]] x line2''
    \<and> take 12 ''![[Missing]] x line2'' = ''![[Missing]]''"
proof (intro allI)
  fix h rt
  have s: "matchAll ''![[Doc#^abc]] tail'' =
      [\<lparr>index = 0, fullMatch = ''![[Doc#^abc]]'', group1 = ''Doc'', group2 = Some ''^abc''\<rparr>]"
    by code_simp
  from leading_directive_survives[OF s, of h]
  have t: "resolveBlockReferences h ''![[Doc#^abc]] tail'' = Inr ''![[Doc#^abc]] tail''"
    by simp
  have a: "matchAll ''![[Missing]] x ![[Doc#^abc]]'' =
     [\<lparr>index = 0, fullMatch = ''![[Missing]]'', group1 = ''Missing'', group2 = None\<rparr>,
      \<lparr>index = 15, fullMatch = ''![[Doc#^abc]]'', group1 = ''Doc'', group2 = Some ''^abc''\<rparr>]"
    by code_simp
  have b: "resolveBlockReferences (indexedVault rt) ''![[Missing]] x ![[Doc#^abc]]''
       = Inr ''![[Missing]] x line2''"
    by code_simp
  from leading_directive_survives[OF a, of "indexedVault rt"] a b s t
  show "matchAll ''![[Doc#^abc]] tail'' =
      [\<lparr>index = 0, fullMatch = ''![[Doc#^abc]]'', group1 = ''Doc'', group2 = Some ''^abc''\<rparr>]
    \<and> resolveBlockReferences h ''![[Doc#^abc]] tail'' = Inr ''![[Doc#^abc]] tail''
    \<and> matchAll ''![[Missing]] x ![[Doc#^abc]]'' =
      [\<lparr>index = 0, fullMatch = ''![[Missing]]'', group1 = ''Missing'', group2 = None\<rparr>,
       \<lparr>index = 15, fullMatch = ''![[Doc#^abc]]'', group1 = ''Doc'', group2 = Some ''^abc''\<rparr>]
    \<and> resolveBlockReferences (indexedVault rt) ''![[Missing]] x ![[Doc#^abc]]''
        = Inr ''![[Missing]] x line2''
    \<and> take 12 ''![[Missing]] x line2'' = ''![[Missing]]''"
    by simp
qed

text \<open>
  The directive at the start stays also when a later directive names a block by an id with
  pattern syntax: for \<open>a.c\<close> the runtime's pattern matches the line of \<open>^abc\<close>.
\<close>

lemma pattern_id_found_after_leading:
  assumes "blockPatternExec rt ''a.c'' sampleDoc = Inr (Some (Some ''  line2''))"
  shows "resolveBlockReferences (sampleVault rt) ''![[Missing]] x ![[Doc#^a.c]]''
      = Inr ''![[Missing]] x line2''"
proof -
  let ?lead = "\<lparr>index = 0, fullMatch = ''![[Missing]]'', group1 = ''Missing'', group2 = None\<rparr>"
  let ?m = "\<lparr>index = 15, fullMatch = ''![[Doc#^a.c]]'', group1 = ''Doc'',
      group2 = Some ''^a.c''\<rparr>"
  have a: "matchAll ''![[Missing]] x ![[Doc#^a.c]]'' = [?lead, ?m]" by code_simp
  have p: "filePathOf ?m = ''Doc''" by code_simp
  have q: "hashPartOf ?m = ''^a.c''" by code_simp
  have f: "getFirstLinkpathDest (sampleVault rt) ''Doc'' = Some ''Doc.md''" by code_simp
  have t: "vaultRead (sampleVault rt) ''Doc.md'' = Some sampleDoc" by code_simp
  have c: "getFileCache (sampleVault rt) ''Doc.md'' = None" by code_simp
  have l: "\<not> literalSource ''a.c''" by code_simp
  have tr: "trim ''  line2'' = ''line2''" by code_simp
  have "blockReplacement (sampleVault rt) sampleDoc None ''a.c'' = Inr (Some ''line2'')"
    using assms l tr by (simp add: blockReplacement_def sampleVault_engine truthy_def)
  then have "computeReplacement (sampleVault rt) ''Doc'' sampleDoc None ''^a.c''
      = Inr (Some ''line2'')"
    by (simp add: computeReplacement_def startsWith_def)
  then have "resolveOne (sampleVault rt) ''![[Missing]] x ![[Doc#^a.c]]'' ?m
      = Inr ''![[Missing]] x line2''"
    using p q f t c by (simp add: resolveOne_def Let_def truthy_def charAt_def)
  moreover have "resolveOne (sampleVault rt) ''![[Missing]] x line2'' ?lead
      = Inr ''![[Missing]] x line2''"
    by (simp add: resolveOne_def)
  ultimately show ?thesis using a by (simp add: resolveBlockReferences_def)
qed

section \<open>What one turn of the loop puts in place of a directive\<close>

lemma file_not_found:
  assumes "index m \<noteq> 0" and "getFirstLinkpathDest h (filePathOf m) = None"
  shows "resolveOne h content m =
      Inr (take (index m) content @ ''[File not found: '' @ filePathOf m @ '']''
           @ drop (index m + length (fullMatch m)) content)
    \<and> (matchAll content = [m] \<longrightarrow>
         resolveBlockReferences h content = resolveOne h content m)"
  using assms by (simp add: resolveOne_def Let_def resolveBlockReferences_def split: sum.splits)

text \<open>
  C6. A directive whose path the host does not resolve is replaced by the diagnostic only
  when it does not stand at the start of the text (\<open>file_not_found\<close>). The text
  \<open>![[Missing]]\<close>, with no note of that name, comes back unchanged: the loop skips the match
  at index 0.
\<close>

theorem missing_file_at_start_unreplaced:
  "getFirstLinkpathDest (sampleVault rt) ''Missing'' = None
   \<and> resolveBlockReferences (sampleVault rt) ''![[Missing]]'' = Inr ''![[Missing]]''
   \<and> resolveBlockReferences (sampleVault rt) ''x![[Missing]]'' = Inr ''x[File not found: Missing]''"
  by code_simp

text \<open>
  C4, as amended. A whole-file directive that does not stand at the start of the text and
  whose note has a non-empty text is replaced by that text, with a line feed put before it
  exactly when the character before the directive is a line feed, and a line feed put after
  it exactly when the character after the directive is one. A note with an empty text gives
  the diagnostic \<open>[Content not found: path]\<close>.
\<close>

theorem fullFile_replacement:
  assumes "index m \<noteq> 0" and "hashPartOf m = []"
    and "getFirstLinkpathDest h (filePathOf m) = Some f" and "vaultRead h f = Some raw"
  shows "resolveOne h content m =
      Inr (take (index m) content
           @ (if raw = [] then ''[Content not found: '' @ filePathOf m @ '']''
              else (if charAt content (index m - 1) = Some (CHR 0x0A) then ''\<newline>'' else [])
                   @ raw
                   @ (if charAt content (index m + length (fullMatch m)) = Some (CHR 0x0A)
                      then ''\<newline>'' else []))
           @ drop (index m + length (fullMatch m)) content)
    \<and> (matchAll content = [m] \<longrightarrow>
         resolveBlockReferences h content = resolveOne h content m)"
  using assms
  by (simp add: resolveOne_def computeReplacement_def Let_def startsWith_def truthy_def charAt_def
      resolveBlockReferences_def split: sum.splits)

theorem fullFile_replacement_witness:
  "\<forall>rt.
   matchAll ''x\<newline>![[Doc]]\<newline>y''
      = [\<lparr>index = 2, fullMatch = ''![[Doc]]'', group1 = ''Doc'', group2 = None\<rparr>]
    \<and> hashPartOf \<lparr>index = 2, fullMatch = ''![[Doc]]'', group1 = ''Doc'', group2 = None\<rparr> = []
    \<and> getFirstLinkpathDest (sampleVault rt)
          (filePathOf \<lparr>index = 2, fullMatch = ''![[Doc]]'', group1 = ''Doc'', group2 = None\<rparr>)
        = Some ''Doc.md''
    \<and> vaultRead (sampleVault rt) ''Doc.md'' = Some sampleDoc
    \<and> resolveBlockReferences (sampleVault rt) ''x\<newline>![[Doc]]\<newline>y''
        = Inr (''x\<newline>'' @ ''\<newline>'' @ sampleDoc @ ''\<newline>'' @ ''\<newline>y'')"
proof (rule allI)
  fix rt
  show "matchAll ''x\<newline>![[Doc]]\<newline>y''
       = [\<lparr>index = 2, fullMatch = ''![[Doc]]'', group1 = ''Doc'', group2 = None\<rparr>]
     \<and> hashPartOf \<lparr>index = 2, fullMatch = ''![[Doc]]'', group1 = ''Doc'', group2 = None\<rparr> = []
     \<and> getFirstLinkpathDest (sampleVault rt)
           (filePathOf \<lparr>index = 2, fullMatch = ''![[Doc]]'', group1 = ''Doc'', group2 = None\<rparr>)
         = Some ''Doc.md''
     \<and> vaultRead (sampleVault rt) ''Doc.md'' = Some sampleDoc
     \<and> resolveBlockReferences (sampleVault rt) ''x\<newline>![[Doc]]\<newline>y''
         = Inr (''x\<newline>'' @ ''\<newline>'' @ sampleDoc @ ''\<newline>'' @ ''\<newline>y'')"
  proof -
    let ?m = "\<lparr>index = 2, fullMatch = ''![[Doc]]'', group1 = ''Doc'', group2 = None\<rparr>"
    have a: "matchAll ''x\<newline>![[Doc]]\<newline>y'' = [?m]" by code_simp
    have h1: "index ?m \<noteq> 0" by simp
    have h2: "hashPartOf ?m = []" by code_simp
    have h3: "getFirstLinkpathDest (sampleVault rt) (filePathOf ?m) = Some ''Doc.md''" by code_simp
    have h4: "vaultRead (sampleVault rt) ''Doc.md'' = Some sampleDoc" by code_simp
    have n: "sampleDoc \<noteq> []" by code_simp
    from fullFile_replacement[OF h1 h2 h3 h4, of "''x\<newline>![[Doc]]\<newline>y''"] n a
    have "resolveBlockReferences (sampleVault rt) ''x\<newline>![[Doc]]\<newline>y''
         = Inr (''x\<newline>'' @ ''\<newline>'' @ sampleDoc @ ''\<newline>'' @ ''\<newline>y'')"
      by (simp add: charAt_def)
    then show ?thesis using a h2 h3 h4 by simp
  qed
qed

text \<open>The claim as stated fails for the empty note \<open>E\<close>: its text is not what is put in.\<close>

theorem fullFile_empty_counterexample:
  "\<forall>rt.
   getFirstLinkpathDest (sampleVault rt) ''E'' = Some ''E.md''
    \<and> vaultRead (sampleVault rt) ''E.md'' = Some []
    \<and> resolveBlockReferences (sampleVault rt) ''x![[E]]y'' = Inr ''x[Content not found: E]y''
    \<and> resolveBlockReferences (sampleVault rt) ''x![[E]]y'' \<noteq> Inr (''x'' @ [] @ ''y'')"
proof (rule allI)
  fix rt
  show "getFirstLinkpathDest (sampleVault rt) ''E'' = Some ''E.md''
     \<and> vaultRead (sampleVault rt) ''E.md'' = Some []
     \<and> resolveBlockReferences (sampleVault rt) ''x![[E]]y'' = Inr ''x[Content not found: E]y''
     \<and> resolveBlockReferences (sampleVault rt) ''x![[E]]y'' \<noteq> Inr (''x'' @ [] @ ''y'')"
    by code_simp
qed

text \<open>
  C7, as amended. A block or heading directive that does not stand at the start of the
  text, whose note is found and read, and for which the lookup ends without an exception
  and with no replacement (it is absent or empty after the cached outline and the
  fallbacks), is replaced by \<open>[Content not found: path#scope]\<close>, where path and scope are
  the two parts of the directive with the white space around them removed; the scope keeps
  its \<open>^\<close>. This holds for every block id, with or without pattern syntax.
\<close>

theorem content_not_found:
  assumes "index m \<noteq> 0" and "hashPartOf m \<noteq> []"
    and "getFirstLinkpathDest h (filePathOf m) = Some f" and "vaultRead h f = Some fileContent"
    and "computeReplacement h (filePathOf m) fileContent (getFileCache h f) (hashPartOf m) = Inr r"
    and "\<not> truthy r"
  shows "resolveOne h content m =
      Inr (take (index m) content
           @ ''[Content not found: '' @ filePathOf m @ ''#'' @ hashPartOf m @ '']''
           @ drop (index m + length (fullMatch m)) content)
    \<and> (matchAll content = [m] \<longrightarrow>
         resolveBlockReferences h content = resolveOne h content m)"
  using assms by (simp add: resolveOne_def Let_def resolveBlockReferences_def split: sum.splits)

theorem content_not_found_witness:
  "\<forall>rt.
   matchAll ''x![[Doc#^nope]]y''
      = [\<lparr>index = 1, fullMatch = ''![[Doc#^nope]]'', group1 = ''Doc'', group2 = Some ''^nope''\<rparr>]
    \<and> hashPartOf \<lparr>index = 1, fullMatch = ''![[Doc#^nope]]'', group1 = ''Doc'',
          group2 = Some ''^nope''\<rparr> = ''^nope''
    \<and> getFirstLinkpathDest (indexedVault rt) ''Doc'' = Some ''Doc.md''
    \<and> vaultRead (indexedVault rt) ''Doc.md'' = Some sampleDoc
    \<and> computeReplacement (indexedVault rt) ''Doc'' sampleDoc (getFileCache (indexedVault rt) ''Doc.md'')
          ''^nope'' = Inr None
    \<and> resolveBlockReferences (indexedVault rt) ''x![[Doc#^nope]]y''
        = Inr ''x[Content not found: Doc#^nope]y''"
proof (rule allI)
  fix rt
  show "matchAll ''x![[Doc#^nope]]y''
       = [\<lparr>index = 1, fullMatch = ''![[Doc#^nope]]'', group1 = ''Doc'', group2 = Some ''^nope''\<rparr>]
     \<and> hashPartOf \<lparr>index = 1, fullMatch = ''![[Doc#^nope]]'', group1 = ''Doc'',
           group2 = Some ''^nope''\<rparr> = ''^nope''
     \<and> getFirstLinkpathDest (indexedVault rt) ''Doc'' = Some ''Doc.md''
     \<and> vaultRead (indexedVault rt) ''Doc.md'' = Some sampleDoc
     \<and> computeReplacement (indexedVault rt) ''Doc'' sampleDoc (getFileCache (indexedVault rt) ''Doc.md'')
           ''^nope'' = Inr None
     \<and> resolveBlockReferences (indexedVault rt) ''x![[Doc#^nope]]y''
         = Inr ''x[Content not found: Doc#^nope]y''"
  proof -
    let ?m = "\<lparr>index = 1, fullMatch = ''![[Doc#^nope]]'', group1 = ''Doc'',
      group2 = Some ''^nope''\<rparr>"
    have a: "matchAll ''x![[Doc#^nope]]y'' = [?m]" by code_simp
    have p: "filePathOf ?m = ''Doc''" by code_simp
    have q: "hashPartOf ?m = ''^nope''" by code_simp
    have h1: "index ?m \<noteq> 0" by simp
    have h2: "hashPartOf ?m \<noteq> []" using q by simp
    have h3: "getFirstLinkpathDest (indexedVault rt) (filePathOf ?m) = Some ''Doc.md''" by code_simp
    have h4: "vaultRead (indexedVault rt) ''Doc.md'' = Some sampleDoc" by code_simp
    have c: "computeReplacement (indexedVault rt) ''Doc'' sampleDoc (getFileCache (indexedVault rt) ''Doc.md'')
        ''^nope'' = Inr None"
      by code_simp
    have h5: "computeReplacement (indexedVault rt) (filePathOf ?m) sampleDoc
        (getFileCache (indexedVault rt) ''Doc.md'') (hashPartOf ?m) = Inr None"
      using c p q by simp
    have h6: "\<not> truthy None" by (simp add: truthy_def)
    from content_not_found[OF h1 h2 h3 h4 h5 h6, of "''x![[Doc#^nope]]y''"] p q a
    have "resolveBlockReferences (indexedVault rt) ''x![[Doc#^nope]]y''
        = Inr ''x[Content not found: Doc#^nope]y''"
      by simp
    then show ?thesis using a q h3 h4 c p by simp
  qed
qed

text \<open>
  The claim as stated fails when the scope stands in the directive with white space around
  it: the diagnostic has the scope without that white space, not as it stood.
\<close>

theorem content_not_found_counterexample:
  "\<forall>rt.
   matchAll ''x![[Doc# ^nope ]]''
      = [\<lparr>index = 1, fullMatch = ''![[Doc# ^nope ]]'', group1 = ''Doc'',
          group2 = Some '' ^nope ''\<rparr>]
    \<and> resolveBlockReferences (sampleVault rt) ''x![[Doc# ^nope ]]''
        = Inr ''x[Content not found: Doc#^nope]''
    \<and> resolveBlockReferences (sampleVault rt) ''x![[Doc# ^nope ]]''
        \<noteq> Inr (''x'' @ ''[Content not found: '' @ ''Doc'' @ ''#'' @ '' ^nope '' @ '']'')"
proof (rule allI)
  fix rt
  show "matchAll ''x![[Doc# ^nope ]]''
       = [\<lparr>index = 1, fullMatch = ''![[Doc# ^nope ]]'', group1 = ''Doc'',
           group2 = Some '' ^nope ''\<rparr>]
     \<and> resolveBlockReferences (sampleVault rt) ''x![[Doc# ^nope ]]''
         = Inr ''x[Content not found: Doc#^nope]''
     \<and> resolveBlockReferences (sampleVault rt) ''x![[Doc# ^nope ]]''
         \<noteq> Inr (''x'' @ ''[Content not found: '' @ ''Doc'' @ ''#'' @ '' ^nope '' @ '']'')"
    by code_simp
qed

text \<open>
  Three block ids that are not plain words. For \<open>no.pe\<close> the runtime's pattern finds
  nothing in the note and no line includes \<open>^no.pe\<close>: the diagnostic is put in. The source
  \<open>a(b\<close> is refused by the runtime, and the exception leaves the resolver. The id
  \<open>constructor\<close> is a property every plain object inherits: with a cached outline the
  resolver reads \<open>position.start\<close> of a value that has no \<open>position\<close> and throws; without
  a cached outline it puts the diagnostic in.
\<close>

lemma pattern_id_not_found:
  assumes "blockPatternExec rt ''no.pe'' sampleDoc = Inr None"
  shows "resolveBlockReferences (sampleVault rt) ''x![[Doc#^no.pe]]''
      = Inr ''x[Content not found: Doc#^no.pe]''"
proof -
  let ?m = "\<lparr>index = 1, fullMatch = ''![[Doc#^no.pe]]'', group1 = ''Doc'',
      group2 = Some ''^no.pe''\<rparr>"
  have a: "matchAll ''x![[Doc#^no.pe]]'' = [?m]" by code_simp
  have p: "filePathOf ?m = ''Doc''" by code_simp
  have q: "hashPartOf ?m = ''^no.pe''" by code_simp
  have f: "getFirstLinkpathDest (sampleVault rt) ''Doc'' = Some ''Doc.md''" by code_simp
  have t: "vaultRead (sampleVault rt) ''Doc.md'' = Some sampleDoc" by code_simp
  have c: "getFileCache (sampleVault rt) ''Doc.md'' = None" by code_simp
  have l: "\<not> literalSource ''no.pe''" by code_simp
  have n: "firstLineWith (splitNl sampleDoc) ''^no.pe'' = None" by code_simp
  have "blockReplacement (sampleVault rt) sampleDoc None ''no.pe'' = Inr None"
    using assms l n by (simp add: blockReplacement_def sampleVault_engine truthy_def)
  then have "computeReplacement (sampleVault rt) ''Doc'' sampleDoc None ''^no.pe'' = Inr None"
    by (simp add: computeReplacement_def startsWith_def)
  then have "resolveOne (sampleVault rt) ''x![[Doc#^no.pe]]'' ?m
      = Inr ''x[Content not found: Doc#^no.pe]''"
    using p q f t c by (simp add: resolveOne_def Let_def truthy_def)
  then show ?thesis using a by (simp add: resolveBlockReferences_def)
qed

lemma rejected_pattern_throws:
  assumes "blockPatternExec rt ''a(b'' sampleDoc = Inl SyntaxError"
  shows "resolveBlockReferences (sampleVault rt) ''x![[Doc#^a(b]]'' = Inl SyntaxError"
proof -
  let ?m = "\<lparr>index = 1, fullMatch = ''![[Doc#^a(b]]'', group1 = ''Doc'',
      group2 = Some ''^a(b''\<rparr>"
  have a: "matchAll ''x![[Doc#^a(b]]'' = [?m]" by code_simp
  have p: "filePathOf ?m = ''Doc''" by code_simp
  have q: "hashPartOf ?m = ''^a(b''" by code_simp
  have f: "getFirstLinkpathDest (sampleVault rt) ''Doc'' = Some ''Doc.md''" by code_simp
  have t: "vaultRead (sampleVault rt) ''Doc.md'' = Some sampleDoc" by code_simp
  have c: "getFileCache (sampleVault rt) ''Doc.md'' = None" by code_simp
  have l: "\<not> literalSource ''a(b''" by code_simp
  have "blockReplacement (sampleVault rt) sampleDoc None ''a(b'' = Inl SyntaxError"
    using assms l by (simp add: blockReplacement_def sampleVault_engine)
  then have "computeReplacement (sampleVault rt) ''Doc'' sampleDoc None ''^a(b'' = Inl SyntaxError"
    by (simp add: computeReplacement_def startsWith_def)
  then have "resolveOne (sampleVault rt) ''x![[Doc#^a(b]]'' ?m = Inl SyntaxError"
    using p q f t c by (simp add: resolveOne_def Let_def)
  then show ?thesis using a by (simp add: resolveBlockReferences_def)
qed

lemma inherited_name_throws:
  "resolveBlockReferences (indexedVault rt) ''x![[Doc#^constructor]]'' = Inl TypeError
   \<and> resolveBlockReferences (sampleVault rt) ''x![[Doc#^constructor]]''
       = Inr ''x[Content not found: Doc#^constructor]''"
  by code_simp

section \<open>Block ids and indentation\<close>

lemma strip_end_prefix: "t = rev (dropWhile P (rev t)) @ rev (takeWhile P (rev t))"
  by (metis rev_append rev_rev_ident takeWhile_dropWhile_id)

lemma trim_prefix: "dropWhile isSpace s = trim s @ rev (takeWhile isSpace (rev (dropWhile isSpace s)))"
  unfolding trim_def by (rule strip_end_prefix)

lemma trim_no_leading_space: "trim s = [] \<or> \<not> isSpace (hd (trim s))"
proof (cases "trim s = []")
  case True
  then show ?thesis by simp
next
  case False
  then have "hd (dropWhile isSpace s) = hd (trim s)"
    using trim_prefix[of s] by (metis hd_append2)
  moreover have "dropWhile isSpace s \<noteq> []"
  proof
    assume "dropWhile isSpace s = []"
    then have "rev (dropWhile isSpace (rev (dropWhile isSpace s))) = rev (dropWhile isSpace (rev []))"
      by (rule arg_cong)
    then have "trim s = []" unfolding trim_def by simp
    then show False using False by simp
  qed
  ultimately show ?thesis using hd_dropWhile[of isSpace s] by metis
qed

lemma set_trim: "set (trim s) \<subseteq> set s"
proof -
  have "set (trim s) \<subseteq> set (dropWhile isSpace s)"
    unfolding trim_def using set_dropWhileD[of _ isSpace "rev (dropWhile isSpace s)"] by auto
  then show ?thesis using set_dropWhileD[of _ isSpace s] by auto
qed

lemma cleanBlockContent_no_indent:
  assumes "cleanBlockContent h content blockId = Inr r"
  shows "r = [] \<or> \<not> isSpace (hd r)"
  using assms trim_no_leading_space
  by (auto simp: cleanBlockContent_def split: if_splits sum.splits)

text \<open>
  C2. \<open>cleanBlockContent\<close> ends with \<open>trim()\<close>, which removes the white space at both ends
  of the line (\<open>cleanBlockContent_no_indent\<close>). The indentation of a line is lost in the
  block-id pass and in a block extraction, through the cached outline and through the
  fallback alike.
\<close>

theorem block_indentation_lost:
  "cleanBlockContent h (Some ''  line2 ^abc'') None = Inr ''line2''
   \<and> cleanAllBlockIds h ''- a\<newline>  - b ^id1\<newline>    c'' = Inr ''- a\<newline>- b\<newline>c''
   \<and> lineAt (splitNl sampleDoc) 2 = Some ''  line2 ^abc''
   \<and> resolveBlockReferences (indexedVault rt) ''x![[Doc#^abc]]'' = Inr ''xline2''
   \<and> resolveBlockReferences (sampleVault rt) ''x![[Doc#^abc]]'' = Inr ''xline2''"
  by code_simp

section \<open>Heading extraction\<close>

lemma bolM_Some: "bolM k c = Some r \<Longrightarrow> k c = Some r"
  by (simp add: bolM_def split: list.splits if_splits)

lemma eolM_Some: "eolM k c = Some r \<Longrightarrow> k c = Some r"
  by (simp add: eolM_def split: list.splits if_splits)

lemma exactly_Some: "exactly n P k c = Some r \<Longrightarrow> \<exists>u c'. reaches c u c' \<and> k c' = Some r"
proof (induction n arbitrary: c)
  case 0
  then have "reaches c [] c \<and> k c = Some r" by (simp add: reaches_def)
  then show ?case by blast
next
  case (Suc n)
  then have "one P (exactly n P k) c = Some r" by simp
  from one_Some[OF this] obtain x c1 where x: "reaches c [x] c1" "exactly n P k c1 = Some r"
    by blast
  from Suc.IH[OF x(2)] obtain u c' where u: "reaches c1 u c'" "k c' = Some r" by blast
  have "reaches c ([x] @ u) c'" using x(1) u(1) by (rule reaches_append)
  then show ?case using u(2) by blast
qed

lemma lazy_until:
  assumes stop: "\<And>b a. a = [] \<or> isTerm (hd a) \<Longrightarrow> k (b, a) \<noteq> None"
    and l: "lazy P k c = Some r"
  shows "\<exists>u c'. reaches c u c' \<and> k c' = Some r \<and> list_all (\<lambda>x. \<not> isTerm x) u"
proof -
  obtain b a where c: "c = (b, a)" by (cases c)
  have "lazy P k (b, a) = Some r \<Longrightarrow>
      \<exists>u c'. reaches (b, a) u c' \<and> k c' = Some r \<and> list_all (\<lambda>x. \<not> isTerm x) u"
  proof (induction a arbitrary: b)
    case Nil
    then have "reaches (b, []) [] (b, []) \<and> k (b, []) = Some r \<and> list_all (\<lambda>x. \<not> isTerm x) []"
      by (simp add: reaches_def)
    then show ?case by blast
  next
    case (Cons x a)
    show ?case
    proof (cases "k (b, x # a)")
      case (Some r')
      with Cons.prems have "reaches (b, x # a) [] (b, x # a) \<and> k (b, x # a) = Some r
          \<and> list_all (\<lambda>x. \<not> isTerm x) []"
        by (simp add: reaches_def)
      then show ?thesis by blast
    next
      case None
      then have nt: "\<not> isTerm x" using stop[of "x # a" b] by auto
      from None Cons.prems have "lazy P k (x # b, a) = Some r"
        by (simp split: if_splits)
      from Cons.IH[OF this] obtain u c' where u: "reaches (x # b, a) u c'" "k c' = Some r"
        "list_all (\<lambda>x. \<not> isTerm x) u"
        by blast
      have "reaches (b, x # a) (x # u) c' \<and> k c' = Some r \<and> list_all (\<lambda>x. \<not> isTerm x) (x # u)"
        using u nt reaches_Cons by simp
      then show ?thesis by blast
    qed
  qed
  then show ?thesis using l c by simp
qed

lemma lookahead_eol:
  assumes "a = [] \<or> isTerm (hd a)"
  shows "lookahead (nextHeadingOrEol n) k (b, a) = k (b, a)"
proof -
  have "eolM (\<lambda>_. Some ()) (b, a) = Some ()" using assms by (cases a) (auto simp: eolM_def)
  then have "nextHeadingOrEol n (\<lambda>_. Some ()) (b, a) = Some ()"
    by (simp add: nextHeadingOrEol_def alt_def split: option.splits)
  then show ?thesis by (simp add: lookahead_def)
qed

lemma headingPattern_Some:
  assumes "headingPattern n hdg c = Some g"
  shows "\<exists>u. g = CHR 0x0A # u \<and> list_all (\<lambda>x. \<not> isTerm x) u"
proof -
  let ?body = "\<lambda>c3. lit ''\<newline>'' (lazy anyChar (\<lambda>c4.
         lookahead (nextHeadingOrEol n) (\<lambda>_. Some (between c3 c4)) c4)) c3"
  have "bolM (exactly n isHash (oneOrMore isSpace (lit hdg (lazy dot (eolM ?body))))) c = Some g"
    using assms unfolding headingPattern_def .
  from bolM_Some[OF this] have "exactly n isHash (oneOrMore isSpace (lit hdg (lazy dot (eolM ?body)))) c = Some g" .
  from exactly_Some[OF this] obtain c1 where "oneOrMore isSpace (lit hdg (lazy dot (eolM ?body))) c1 = Some g"
    by (elim exE conjE)
  from oneOrMore_Some[OF this] obtain c2 where "lit hdg (lazy dot (eolM ?body)) c2 = Some g"
    by (elim exE conjE)
  from lit_Some[OF this] obtain c2' where "lazy dot (eolM ?body) c2' = Some g"
    by (elim exE conjE)
  from lazy_Some[OF this] obtain c3 where "eolM ?body c3 = Some g"
    by (elim exE conjE)
  from eolM_Some[OF this] have "lit ''\<newline>'' (lazy anyChar (\<lambda>c4.
         lookahead (nextHeadingOrEol n) (\<lambda>_. Some (between c3 c4)) c4)) c3 = Some g" .
  from lit_Some[OF this] obtain c3' where r1: "reaches c3 ''\<newline>'' c3'"
    and l: "lazy anyChar (\<lambda>c4.
         lookahead (nextHeadingOrEol n) (\<lambda>_. Some (between c3 c4)) c4) c3' = Some g"
    by (elim exE conjE)
  let ?k = "\<lambda>c4. lookahead (nextHeadingOrEol n) (\<lambda>_. Some (between c3 c4)) c4"
  have "\<exists>u c4. reaches c3' u c4 \<and> ?k c4 = Some g \<and> list_all (\<lambda>x. \<not> isTerm x) u"
  proof (rule lazy_until[where k = ?k and P = anyChar])
    show "lazy anyChar ?k c3' = Some g" by (rule l)
  next
    fix b a assume "a = [] \<or> isTerm (hd a)"
    then show "?k (b, a) \<noteq> None" by (simp add: lookahead_eol)
  qed
  then obtain u c4 where r2: "reaches c3' u c4"
    and k: "lookahead (nextHeadingOrEol n) (\<lambda>_. Some (between c3 c4)) c4 = Some g"
    and nt: "list_all (\<lambda>x. \<not> isTerm x) u"
    by (elim exE conjE)
  have "g = between c3 c4" using k by (simp add: lookahead_def split: option.splits)
  moreover have "between c3 c4 = ''\<newline>'' @ u"
    using between_reaches[OF reaches_append[OF r1 r2]] .
  ultimately show ?thesis using nt by simp
qed

lemma getHeadingContent_one_line:
  assumes "getHeadingContent h filePath hdg = Inr (Some r)"
  shows "list_all (\<lambda>x. \<not> isTerm x) r"
proof -
  from assms obtain fileContent n c g where "exec (headingPattern n hdg) (start fileContent) = Some (c, g)"
    and r: "r = trim g"
    by (auto simp: getHeadingContent_def split: option.splits)
  from exec_Some[OF this(1)] have "headingPattern n hdg c = Some g" by blast
  from headingPattern_Some[OF this] obtain u where g: "g = CHR 0x0A # u"
    and nt: "list_all (\<lambda>x. \<not> isTerm x) u"
    by blast
  have "trim g = trim u" using g by (simp add: trim_def isSpace_def)
  then have "set r \<subseteq> set u" using r set_trim[of u] by simp
  then show ?thesis using nt by (auto simp: list_all_iff)
qed

text \<open>
  C1. With the cached outline the replacement is the span from the heading line to the
  next heading of the same or a higher rank. Without it, \<open>getHeadingContent\<close> gives something
  else for the same note and the same heading: the \<open>$\<close> of its lookahead holds at the end of
  every line under the \<open>m\<close> flag, so the lazy group stops at the end of the first line after
  the heading, and the heading line is outside the group. What it returns never holds a
  line terminator (\<open>getHeadingContent_one_line\<close>).
\<close>

theorem heading_fallback_differs:
  "getFileCache (sampleVault rt) ''Doc.md'' = None
   \<and> headingFromCache sampleDoc (Some sampleCache) ''A''
       = Some ''# A\<newline>line1\<newline>  line2 ^abc''
   \<and> resolveBlockReferences (indexedVault rt) ''x![[Doc#A]]''
       = Inr ''x# A\<newline>line1\<newline>  line2 ^abc''
   \<and> getHeadingContent (sampleVault rt) ''Doc'' ''A'' = Inr (Some ''line1'')
   \<and> resolveBlockReferences (sampleVault rt) ''x![[Doc#A]]'' = Inr ''xline1''"
  by code_simp

section \<open>Splicing from the last directive to the first\<close>

text \<open>
  The reference the design notes describe: the text is cut at the directive spans, and the
  output is the pieces of the text between the spans with the replacements in between, put
  together in one pass from left to right. The assignment gives each match its replacement.
\<close>

fun rebuildFrom :: "nat \<Rightarrow> string \<Rightarrow> (rmatch \<times> string) list \<Rightarrow> string" where
  "rebuildFrom pos content [] = drop pos content"
| "rebuildFrom pos content ((m, r) # rest) =
     take (index m - pos) (drop pos content) @ r
     @ rebuildFrom (index m + length (fullMatch m)) content rest"

definition rebuild :: "string \<Rightarrow> (rmatch \<times> string) list \<Rightarrow> string" where
  "rebuild content assignment = rebuildFrom 0 content assignment"

text \<open>The source's splice statement, for one match and the text that goes in its place.\<close>

definition spliceAt :: "string \<Rightarrow> rmatch \<Rightarrow> string \<Rightarrow> string" where
  "spliceAt content m r = take (index m) content @ r @ drop (index m + length (fullMatch m)) content"

lemma splice_descending:
  "spansFrom pos content (map fst as) \<Longrightarrow> pos \<le> length content \<Longrightarrow>
   foldr (\<lambda>(m, r) c. spliceAt c m r) as content = take pos content @ rebuildFrom pos content as"
proof (induction as arbitrary: pos)
  case Nil
  then show ?case by simp
next
  case (Cons a as)
  obtain m r where a: "a = (m, r)" by (cases a)
  let ?e = "index m + length (fullMatch m)"
  have p: "pos \<le> index m" and e: "?e \<le> length content"
    and sp: "spansFrom ?e content (map fst as)"
    using Cons.prems(1) a by simp_all
  have ih: "foldr (\<lambda>(m, r) c. spliceAt c m r) as content = take ?e content @ rebuildFrom ?e content as"
    using Cons.IH[OF sp e] .
  have t: "take (index m) (take ?e content @ rebuildFrom ?e content as) = take (index m) content"
    using e by simp
  have d: "drop ?e (take ?e content @ rebuildFrom ?e content as) = rebuildFrom ?e content as"
    using e by simp
  have "take pos content @ take (index m - pos) (drop pos content) = take (index m) content"
    using p by (metis le_add_diff_inverse take_add)
  then show ?case using a ih t d by (simp add: spliceAt_def)
qed

lemma resolveLoop_splices:
  "(\<And>m. m \<in> set ms \<Longrightarrow> index m \<noteq> 0) \<Longrightarrow> resolveLoop h (rev ms) content = Inr out \<Longrightarrow>
   \<exists>rs. length rs = length ms \<and> out = foldr (\<lambda>(m, r) c. spliceAt c m r) (zip ms rs) content"
proof (induction ms arbitrary: content rule: rev_induct)
  case Nil
  then show ?case by simp
next
  case (snoc m ms)
  from snoc.prems(2) obtain c where c: "resolveOne h content m = Inr c"
    and l: "resolveLoop h (rev ms) c = Inr out"
    by (auto split: sum.splits)
  have "index m \<noteq> 0" using snoc.prems(1)[of m] by simp
  from resolveOne_shape[OF c this] obtain r where r: "c = spliceAt content m r"
    unfolding spliceAt_def by blast
  have "\<And>m'. m' \<in> set ms \<Longrightarrow> index m' \<noteq> 0" using snoc.prems(1) by simp
  from snoc.IH[OF this l] obtain rs where rs: "length rs = length ms"
    and o: "out = foldr (\<lambda>(m, r) c. spliceAt c m r) (zip ms rs) c"
    by blast
  have "zip (ms @ [m]) (rs @ [r]) = zip ms rs @ [(m, r)]" using rs by simp
  then have "out = foldr (\<lambda>(m, r) c. spliceAt c m r) (zip (ms @ [m]) (rs @ [r])) content"
    using o r by simp
  moreover have "length (rs @ [r]) = length (ms @ [m])" using rs by simp
  ultimately show ?case by blast
qed

lemma resolve_is_rebuild:
  assumes "\<And>m. m \<in> set (matchAll content) \<Longrightarrow> index m \<noteq> 0"
    and "resolveBlockReferences h content = Inr out"
  shows "\<exists>rs. length rs = length (matchAll content)
           \<and> out = rebuild content (zip (matchAll content) rs)"
proof -
  from resolveLoop_splices[OF assms(1), of "matchAll content" h content out] assms(2)
  obtain rs where rs: "length rs = length (matchAll content)"
    and o: "out = foldr (\<lambda>(m, r) c. spliceAt c m r) (zip (matchAll content) rs) content"
    by (auto simp: resolveBlockReferences_def)
  have "map fst (zip (matchAll content) rs) = matchAll content" using rs by simp
  then have "spansFrom 0 content (map fst (zip (matchAll content) rs))"
    using matchAll_spans[of content] by simp
  from splice_descending[OF this] have
    "foldr (\<lambda>(m, r) c. spliceAt c m r) (zip (matchAll content) rs) content
       = rebuild content (zip (matchAll content) rs)"
    by (simp add: rebuild_def)
  then show ?thesis using rs o by auto
qed

lemma splice_order:
  assumes "length rs = length (matchAll content)"
  shows "foldr (\<lambda>(m, r) c. spliceAt c m r) (zip (matchAll content) rs) content
       = rebuild content (zip (matchAll content) rs)"
proof -
  have "map fst (zip (matchAll content) rs) = matchAll content" using assms by simp
  then have "spansFrom 0 content (map fst (zip (matchAll content) rs))"
    using matchAll_spans[of content] by simp
  from splice_descending[OF this] show ?thesis by (simp add: rebuild_def)
qed

lemma splice_5_and_50:
  "map index (matchAll ''01234![[Doc#^abc]] thirty-two characters of filler![[Missing]]'')
     = [5, 50]
   \<and> resolveBlockReferences (indexedVault rt)
         ''01234![[Doc#^abc]] thirty-two characters of filler![[Missing]]''
       = Inr ''01234line2 thirty-two characters of filler[File not found: Missing]''
   \<and> rebuild ''01234![[Doc#^abc]] thirty-two characters of filler![[Missing]]''
         (zip (matchAll ''01234![[Doc#^abc]] thirty-two characters of filler![[Missing]]'')
            [''line2'', ''[File not found: Missing]''])
       = ''01234line2 thirty-two characters of filler[File not found: Missing]''"
  by code_simp

text \<open>
  C3. Splicing from the last match to the first gives the one-pass rebuild for every
  assignment (\<open>splice_order\<close>), and so does the resolver on a text that does not start with
  a directive (\<open>resolve_is_rebuild\<close>, \<open>splice_5_and_50\<close>). On a text that starts with a
  directive the loop skips the match at index 0, and the result is not the rebuild: the
  first directive stays where its replacement should be.
\<close>

theorem splice_skips_first_directive:
  "map index (matchAll ''![[Doc#^abc]] + ![[Doc#^abc]]'') = [0, 16]
   \<and> resolveBlockReferences (indexedVault rt) ''![[Doc#^abc]] + ![[Doc#^abc]]''
       = Inr ''![[Doc#^abc]] + line2''
   \<and> rebuild ''![[Doc#^abc]] + ![[Doc#^abc]]''
         (zip (matchAll ''![[Doc#^abc]] + ![[Doc#^abc]]'') [''line2'', ''line2''])
       = ''line2 + line2''"
  by code_simp

section \<open>The front matter and the order of the two passes\<close>

text \<open>
  The block-id pass on one line, and the front-matter pass seen on the lines of the text:
  the first line is \<open>---\<close>, and a later line \<open>---\<close> that is neither the second line nor the
  last one closes the block.
\<close>

lemma splitNl_nonempty: "splitNl s \<noteq> []"
  by (induction s) (auto split: list.splits)

lemma joinNl_Cons: "ls \<noteq> [] \<Longrightarrow> joinNl (l # ls) = l @ CHR 0x0A # joinNl ls"
  by (cases ls) simp_all

lemma joinNl_splitNl: "joinNl (splitNl s) = s"
proof (induction s)
  case Nil
  then show ?case by simp
next
  case (Cons c cs)
  show ?case
  proof (cases "c = CHR 0x0A")
    case True
    then show ?thesis using Cons splitNl_nonempty[of cs] by (simp add: joinNl_Cons)
  next
    case False
    obtain l ls where l: "splitNl cs = l # ls" using splitNl_nonempty[of cs] by (cases "splitNl cs") auto
    then have "joinNl ((c # l) # ls) = c # joinNl (l # ls)" by (cases ls) simp_all
    then show ?thesis using False l Cons by simp
  qed
qed

lemma splitNl_lines: "l \<in> set (splitNl s) \<Longrightarrow> CHR 0x0A \<notin> set l"
proof (induction s arbitrary: l)
  case Nil
  then show ?case by simp
next
  case (Cons c cs)
  obtain m ms where m: "splitNl cs = m # ms" using splitNl_nonempty[of cs] by (cases "splitNl cs") auto
  show ?case
  proof (cases "c = CHR 0x0A")
    case True
    then show ?thesis using Cons by auto
  next
    case False
    then have "l = c # m \<or> l \<in> set ms" using Cons.prems m by simp
    then show ?thesis using False Cons.IH[of m] Cons.IH[of l] m by auto
  qed
qed

lemma splitNl_line: "CHR 0x0A \<notin> set l \<Longrightarrow> splitNl l = [l]"
  by (induction l) auto

lemma splitNl_append: "CHR 0x0A \<notin> set l \<Longrightarrow> splitNl (l @ CHR 0x0A # s) = l # splitNl s"
  by (induction l) auto

lemma splitNl_joinNl:
  "ls \<noteq> [] \<Longrightarrow> (\<And>l. l \<in> set ls \<Longrightarrow> CHR 0x0A \<notin> set l) \<Longrightarrow> splitNl (joinNl ls) = ls"
proof (induction ls rule: joinNl.induct)
  case 1
  then show ?case by simp
next
  case (2 l)
  then show ?case by (simp add: splitNl_line)
next
  case (3 l m ls)
  then have "splitNl (joinNl (m # ls)) = m # ls" by simp
  then show ?case using 3(3)[of l] by (simp add: splitNl_append)
qed


definition cleanLine :: "string \<Rightarrow> string" where
  "cleanLine l = trim (replaceFirst anyAnchor [] l)"

lemma cleanBlockContent_line: "cleanBlockContent h (Some l) None = Inr (cleanLine l)"
proof (cases "l = []")
  case True
  have "exec anyAnchor ([], []) = None"
    by (simp add: anyAnchor_def)
  then show ?thesis using True
    by (simp add: cleanBlockContent_def cleanLine_def truthy_def replaceFirst_def start_def trim_def)
next
  case False
  then show ?thesis by (simp add: cleanBlockContent_def cleanLine_def truthy_def)
qed

lemma cleanLines_map: "cleanLines h ls = Inr (map cleanLine ls)"
  by (induction ls) (simp_all add: cleanBlockContent_line)

lemma cleanAllBlockIds_map: "cleanAllBlockIds h content = Inr (joinNl (map cleanLine (splitNl content)))"
  by (simp add: cleanAllBlockIds_def cleanLines_map)

lemma eos_Some: "eos k c = Some r \<Longrightarrow> snd c = [] \<and> k c = Some r"
  by (simp add: eos_def split: if_splits)

lemma anyAnchor_Some:
  assumes "anyAnchor c = Some c'"
  shows "snd c' = []"
proof -
  have "greedy isSpace (lit ''^'' (oneOrMore isAlnum (greedy isSpace (eos finish)))) c = Some c'"
    using assms unfolding anyAnchor_def .
  from greedy_Some[OF this] obtain c1 where
    "lit ''^'' (oneOrMore isAlnum (greedy isSpace (eos finish))) c1 = Some c'"
    by (elim exE conjE)
  from lit_Some[OF this] obtain c2 where "oneOrMore isAlnum (greedy isSpace (eos finish)) c2 = Some c'"
    by (elim exE conjE)
  from oneOrMore_Some[OF this] obtain c3 where "greedy isSpace (eos finish) c3 = Some c'"
    by (elim exE conjE)
  from greedy_Some[OF this] obtain c4 where "eos finish c4 = Some c'"
    by (elim exE conjE)
  from eos_Some[OF this] show ?thesis by (auto simp: finish_def)
qed

lemma replaceFirst_anyAnchor_prefix: "\<exists>v. s = replaceFirst anyAnchor [] s @ v"
proof (cases "exec anyAnchor (start s)")
  case None
  then show ?thesis by (simp add: replaceFirst_def)
next
  case (Some x)
  obtain c c' where x: "x = (c, c')" by (cases x)
  from exec_Some[of anyAnchor "start s" c c'] Some x obtain u where
    u: "reaches (start s) u c" and a: "anyAnchor c = Some c'"
    by auto
  have "replaceFirst anyAnchor [] s = u"
    using Some x u anyAnchor_Some[OF a] by (simp add: replaceFirst_def reaches_def start_def)
  moreover have "s = u @ snd c" using u by (simp add: reaches_def start_def)
  ultimately show ?thesis by blast
qed

lemma set_cleanLine: "set (cleanLine l) \<subseteq> set l"
proof -
  obtain v where "l = replaceFirst anyAnchor [] l @ v" using replaceFirst_anyAnchor_prefix by blast
  then have "set (replaceFirst anyAnchor [] l) \<subseteq> set l" by (metis set_append Un_upper1)
  then show ?thesis unfolding cleanLine_def using set_trim by blast
qed


fun afterFirst :: "string \<Rightarrow> string \<Rightarrow> string option" where
  "afterFirst p [] = (if p = [] then Some [] else None)"
| "afterFirst p (c # cs) =
     (if startsWith (c # cs) p then Some (drop (length p) (c # cs)) else afterFirst p cs)"

lemma lit_startsWith:
  "lit p k (b, a) = (if startsWith a p then k (rev p @ b, drop (length p) a) else None)"
proof (induction p arbitrary: b a)
  case Nil
  then show ?case by (simp add: startsWith_def)
next
  case (Cons x p)
  show ?case
  proof (cases a)
    case Nil
    then show ?thesis by (simp add: startsWith_def)
  next
    case (Cons c cs)
    have "lit p k (c # b, cs)
        = (if startsWith cs p then k (rev p @ c # b, drop (length p) cs) else None)"
      by (rule Cons.IH)
    then show ?thesis using Cons by (auto simp: startsWith_Cons)
  qed
qed

lemma lazy_lit_afterFirst:
  "map_option snd (lazy anyChar (lit p finish) (b, a)) = afterFirst p a"
proof (induction a arbitrary: b)
  case Nil
  then show ?case by (simp add: lit_startsWith finish_def startsWith_def)
next
  case (Cons c cs)
  show ?case
  proof (cases "startsWith (c # cs) p")
    case True
    then show ?thesis by (simp add: lit_startsWith finish_def)
  next
    case False
    then show ?thesis using Cons.IH[of "c # b"] by (simp add: lit_startsWith anyChar_def)
  qed
qed

lemma exec_bos_later: "b \<noteq> [] \<Longrightarrow> exec (bos k) (b, a) = None"
  by (induction a arbitrary: b) (simp_all add: bos_def)

lemma exec_bos_start:
  "exec (bos k) ([], a) = (case k ([], a) of Some r \<Rightarrow> Some (([], a), r) | None \<Rightarrow> None)"
  by (cases a) (simp_all add: bos_def exec_bos_later split: option.splits)

lemma stripMetadata_eq:
  "stripMetadata content =
     (if startsWith content ''---\<newline>''
      then (case afterFirst ''\<newline>---\<newline>'' (drop 4 content) of
              Some rest \<Rightarrow> rest | None \<Rightarrow> content)
      else content)"
proof -
  let ?k = "lit ''---\<newline>'' (lazy anyChar (lit ''\<newline>---\<newline>'' finish))"
  have e: "exec frontMatter ([], content)
      = (case ?k ([], content) of Some r \<Rightarrow> Some (([], content), r) | None \<Rightarrow> None)"
    unfolding frontMatter_def by (rule exec_bos_start)
  show ?thesis
  proof (cases "startsWith content ''---\<newline>''")
    case False
    then have "?k ([], content) = None" by (simp add: lit_startsWith)
    then show ?thesis using e False by (simp add: stripMetadata_def replaceFirst_def start_def)
  next
    case True
    then have k: "?k ([], content)
        = lazy anyChar (lit ''\<newline>---\<newline>'' finish) (rev ''---\<newline>'', drop 4 content)"
      by (simp add: lit_startsWith eval_nat_numeral)
    have a: "map_option snd (lazy anyChar (lit ''\<newline>---\<newline>'' finish)
        (rev ''---\<newline>'', drop 4 content)) = afterFirst ''\<newline>---\<newline>'' (drop 4 content)"
      by (rule lazy_lit_afterFirst)
    show ?thesis
    proof (cases "lazy anyChar (lit ''\<newline>---\<newline>'' finish) (rev ''---\<newline>'', drop 4 content)")
      case None
      then show ?thesis using e k a True
        by (simp add: stripMetadata_def replaceFirst_def start_def)
    next
      case (Some c')
      then have "afterFirst ''\<newline>---\<newline>'' (drop 4 content) = Some (snd c')" using a by simp
      then show ?thesis using e k Some True
        by (simp add: stripMetadata_def replaceFirst_def start_def)
    qed
  qed
qed


fun closeLines :: "string list \<Rightarrow> string list option" where
  "closeLines (l # m # n # rest) = (if m = ''---'' then Some (n # rest) else closeLines (m # n # rest))"
| "closeLines [] = None"
| "closeLines [l] = None"
| "closeLines [l, m] = None"

definition dropFrontLines :: "string list \<Rightarrow> string list" where
  "dropFrontLines L = (case L of [] \<Rightarrow> []
     | l0 # M \<Rightarrow> if l0 = ''---'' then (case closeLines M of Some R \<Rightarrow> R | None \<Rightarrow> L) else L)"

lemma afterFirst_skip_line:
  "CHR 0x0A \<notin> set l \<Longrightarrow> afterFirst (CHR 0x0A # p) (l @ X) = afterFirst (CHR 0x0A # p) X"
  by (induction l) (auto simp: startsWith_def)

lemma afterFirst_no_nl: "CHR 0x0A \<notin> set l \<Longrightarrow> afterFirst (CHR 0x0A # p) l = None"
  using afterFirst_skip_line[of l p "[]"] by simp

lemma startsWith_no_nl: "CHR 0x0A \<notin> set m \<Longrightarrow> \<not> startsWith m ''---\<newline>''"
proof
  assume n: "CHR 0x0A \<notin> set m" and "startsWith m ''---\<newline>''"
  then have e: "take (length ''---\<newline>'') m = ''---\<newline>''" unfolding startsWith_def by simp
  have "CHR 0x0A \<in> set ''---\<newline>''" by simp
  then have "CHR 0x0A \<in> set (take (length ''---\<newline>'') m)" using e by metis
  then show False using n in_set_takeD by fastforce
qed

lemma startsWith_dashes:
  assumes "CHR 0x0A \<notin> set m"
  shows "startsWith (m @ CHR 0x0A # Z) ''---\<newline>'' = (m = ''---'')"
proof (cases "length m < 4")
  case False
  then have "take 4 (m @ CHR 0x0A # Z) = take 4 m" by simp
  then have "startsWith (m @ CHR 0x0A # Z) ''---\<newline>'' = startsWith m ''---\<newline>''"
    by (simp add: startsWith_def)
  moreover have "m \<noteq> ''---''" using False by auto
  ultimately show ?thesis using startsWith_no_nl[OF assms] by simp
next
  case True
  then consider "m = []" | a where "m = [a]" | a b where "m = [a, b]" | a b c where "m = [a, b, c]"
    by (cases m; cases "tl m"; cases "tl (tl m)"; cases "tl (tl (tl m))") auto
  then show ?thesis using assms by cases (auto simp: startsWith_def)
qed

lemma afterFirst_joinNl:
  "(\<And>l. l \<in> set M \<Longrightarrow> CHR 0x0A \<notin> set l) \<Longrightarrow>
   afterFirst ''\<newline>---\<newline>'' (joinNl M) = map_option joinNl (closeLines M)"
proof (induction M rule: closeLines.induct)
  case (1 l m n rest)
  have l: "CHR 0x0A \<notin> set l" and m: "CHR 0x0A \<notin> set m" using 1(2) by simp_all
  let ?Z = "joinNl (n # rest)"
  have j: "joinNl (l # m # n # rest) = l @ (CHR 0x0A # m @ CHR 0x0A # ?Z)" by simp
  have s: "afterFirst ''\<newline>---\<newline>'' (joinNl (l # m # n # rest))
      = afterFirst ''\<newline>---\<newline>'' (CHR 0x0A # m @ CHR 0x0A # ?Z)"
    unfolding j using l by (rule afterFirst_skip_line)
  have d: "startsWith (CHR 0x0A # m @ CHR 0x0A # ?Z) ''\<newline>---\<newline>'' = (m = ''---'')"
    using startsWith_dashes[OF m, of ?Z] by (simp add: startsWith_Cons)
  show ?case
  proof (cases "m = ''---''")
    case True
    then show ?thesis using s d by simp
  next
    case False
    have "afterFirst ''\<newline>---\<newline>'' (CHR 0x0A # m @ CHR 0x0A # ?Z)
        = afterFirst ''\<newline>---\<newline>'' (joinNl (m # n # rest))"
      using d False by simp
    moreover have "afterFirst ''\<newline>---\<newline>'' (joinNl (m # n # rest))
        = map_option joinNl (closeLines (m # n # rest))"
      using 1(1)[OF False] 1(2) by simp
    ultimately show ?thesis using s False by simp
  qed
next
  case 2
  then show ?case by simp
next
  case (3 l)
  then show ?case using afterFirst_no_nl[of l "''---\<newline>''"] by simp
next
  case (4 l m)
  have l: "CHR 0x0A \<notin> set l" and m: "CHR 0x0A \<notin> set m" using 4 by simp_all
  have "afterFirst ''\<newline>---\<newline>'' (l @ (CHR 0x0A # m))
      = afterFirst ''\<newline>---\<newline>'' (CHR 0x0A # m)"
    using l by (rule afterFirst_skip_line)
  moreover have "\<not> startsWith (CHR 0x0A # m) ''\<newline>---\<newline>''"
    using startsWith_no_nl[OF m] by (simp add: startsWith_Cons)
  ultimately show ?case using afterFirst_no_nl[OF m, of "''---\<newline>''"] by simp
qed


lemma stripMetadata_lines:
  assumes "L \<noteq> []" and nl: "\<And>l. l \<in> set L \<Longrightarrow> CHR 0x0A \<notin> set l"
  shows "stripMetadata (joinNl L) = joinNl (dropFrontLines L)"
proof -
  obtain l0 M where L: "L = l0 # M" using assms(1) by (cases L) auto
  have l0: "CHR 0x0A \<notin> set l0" using nl L by simp
  show ?thesis
  proof (cases M)
    case Nil
    then show ?thesis using L startsWith_no_nl[OF l0]
      by (simp add: stripMetadata_eq dropFrontLines_def)
  next
    case (Cons m M')
    have j: "joinNl L = l0 @ CHR 0x0A # joinNl M" using L Cons by simp
    have st: "startsWith (joinNl L) ''---\<newline>'' = (l0 = ''---'')"
      unfolding j using l0 by (rule startsWith_dashes)
    show ?thesis
    proof (cases "l0 = ''---''")
      case False
      then show ?thesis using st L by (simp add: stripMetadata_eq dropFrontLines_def)
    next
      case True
      then have d: "drop 4 (joinNl L) = joinNl M" using j by simp
      have "afterFirst ''\<newline>---\<newline>'' (joinNl M) = map_option joinNl (closeLines M)"
        using nl L by (intro afterFirst_joinNl) simp
      then show ?thesis using st True d L
        by (simp add: stripMetadata_eq dropFrontLines_def split: option.splits)
    qed
  qed
qed

lemma closeLines_map:
  "(\<And>l. l \<in> set M \<Longrightarrow> (f l = ''---'') = (l = ''---'')) \<Longrightarrow>
   closeLines (map f M) = map_option (map f) (closeLines M)"
proof (induction M rule: closeLines.induct)
  case (1 l m n rest)
  have m: "(f m = ''---'') = (m = ''---'')" using 1(2)[of m] by simp
  show ?case
  proof (cases "m = ''---''")
    case True
    then show ?thesis using m by simp
  next
    case False
    then have "closeLines (map f (m # n # rest)) = map_option (map f) (closeLines (m # n # rest))"
      using 1 by simp
    then show ?thesis using False m by simp
  qed
qed simp_all

lemma dropFrontLines_map:
  assumes "\<And>l. l \<in> set L \<Longrightarrow> (f l = ''---'') = (l = ''---'')"
  shows "dropFrontLines (map f L) = map f (dropFrontLines L)"
proof (cases L)
  case Nil
  then show ?thesis by (simp add: dropFrontLines_def)
next
  case (Cons l0 M)
  have "closeLines (map f M) = map_option (map f) (closeLines M)"
    using assms Cons by (intro closeLines_map) simp
  moreover have "(f l0 = ''---'') = (l0 = ''---'')" using assms Cons by simp
  ultimately show ?thesis using Cons by (simp add: dropFrontLines_def split: option.splits)
qed

lemma closeLines_Some: "closeLines M = Some R \<Longrightarrow> R \<noteq> [] \<and> set R \<subseteq> set M"
proof (induction M rule: closeLines.induct)
  case (1 l m n rest)
  then show ?case by (cases "m = ''---''") auto
qed simp_all

lemma dropFrontLines_lines: "L \<noteq> [] \<Longrightarrow> dropFrontLines L \<noteq> [] \<and> set (dropFrontLines L) \<subseteq> set L"
proof (cases L)
  case Nil
  assume "L \<noteq> []"
  then show ?thesis using Nil by simp
next
  case (Cons l0 M)
  show ?thesis
  proof (cases "closeLines M")
    case None
    then show ?thesis using Cons by (simp add: dropFrontLines_def)
  next
    case (Some R)
    then show ?thesis using Cons closeLines_Some[OF Some] by (auto simp: dropFrontLines_def)
  qed
qed

text \<open>The two passes in the other order: block ids first, then the front matter.\<close>

definition idsThenMetadata :: "host \<Rightarrow> string \<Rightarrow> failure + string" where
  "idsThenMetadata h content =
     (case cleanAllBlockIds h content of Inl e \<Rightarrow> Inl e | Inr content1 \<Rightarrow> Inr (stripMetadata content1))"

lemma cleanLine_dashes: "cleanLine ''---'' = ''---''"
  by code_simp

text \<open>
  C10, as amended. The two passes give the same text in either order when the block-id
  pass turns no line into a line \<open>---\<close> that was not one before.
\<close>

theorem strip_order_commutes:
  assumes H: "\<forall>l \<in> set (splitNl content). cleanBlockContent h (Some l) None = Inr ''---'' \<longrightarrow> l = ''---''"
  shows "strip h content True True = idsThenMetadata h content"
proof -
  let ?L = "splitNl content"
  have c: "content = joinNl ?L" by (simp add: joinNl_splitNl)
  have ne: "?L \<noteq> []" by (rule splitNl_nonempty)
  have nl: "\<And>l. l \<in> set ?L \<Longrightarrow> CHR 0x0A \<notin> set l" by (rule splitNl_lines)
  have f: "\<And>l. l \<in> set ?L \<Longrightarrow> (cleanLine l = ''---'') = (l = ''---'')"
    using H cleanLine_dashes by (auto simp: cleanBlockContent_line)
  have m: "stripMetadata content = joinNl (dropFrontLines ?L)"
    using stripMetadata_lines[OF ne nl] c by simp
  have d: "dropFrontLines ?L \<noteq> []" "\<And>l. l \<in> set (dropFrontLines ?L) \<Longrightarrow> CHR 0x0A \<notin> set l"
    using dropFrontLines_lines[OF ne] nl by auto
  have "splitNl (stripMetadata content) = dropFrontLines ?L"
    unfolding m using d by (rule splitNl_joinNl)
  then have lhs: "strip h content True True = Inr (joinNl (map cleanLine (dropFrontLines ?L)))"
    by (simp add: strip_def cleanAllBlockIds_map)
  have ne': "map cleanLine ?L \<noteq> []" using ne by simp
  have nl': "\<And>l. l \<in> set (map cleanLine ?L) \<Longrightarrow> CHR 0x0A \<notin> set l"
    using nl set_cleanLine by fastforce
  have "stripMetadata (joinNl (map cleanLine ?L)) = joinNl (dropFrontLines (map cleanLine ?L))"
    using ne' nl' by (rule stripMetadata_lines)
  also have "\<dots> = joinNl (map cleanLine (dropFrontLines ?L))"
    using dropFrontLines_map[of ?L cleanLine] f by simp
  finally have rhs: "idsThenMetadata h content = Inr (joinNl (map cleanLine (dropFrontLines ?L)))"
    by (simp add: idsThenMetadata_def cleanAllBlockIds_map)
  show ?thesis using lhs rhs by simp
qed

theorem strip_order_commutes_witness:
  "\<forall>h.
   strip h ''---\<newline>tags: x\<newline>---\<newline>Body ^id1\<newline>'' True True
      = idsThenMetadata h ''---\<newline>tags: x\<newline>---\<newline>Body ^id1\<newline>''
    \<and> strip h ''---\<newline>tags: x\<newline>---\<newline>Body ^id1\<newline>'' True True = Inr ''Body\<newline>''"
proof (rule allI)
  fix h
  show "strip h ''---\<newline>tags: x\<newline>---\<newline>Body ^id1\<newline>'' True True
       = idsThenMetadata h ''---\<newline>tags: x\<newline>---\<newline>Body ^id1\<newline>''
     \<and> strip h ''---\<newline>tags: x\<newline>---\<newline>Body ^id1\<newline>'' True True = Inr ''Body\<newline>''"
  proof -
    have h: "\<forall>l \<in> set (splitNl ''---\<newline>tags: x\<newline>---\<newline>Body ^id1\<newline>'').
        cleanBlockContent h (Some l) None = Inr ''---'' \<longrightarrow> l = ''---''"
      by code_simp
    have e: "strip h ''---\<newline>tags: x\<newline>---\<newline>Body ^id1\<newline>'' True True = Inr ''Body\<newline>''"
      by code_simp
    from strip_order_commutes[OF h] e show ?thesis by simp
  qed
qed

text \<open>
  The claim as stated fails on a text whose first line is \<open>---\<close> followed by a space: the
  front-matter pass finds no block before the block-id pass has trimmed that line, and
  finds one after.
\<close>

theorem strip_order_counterexample:
  "\<forall>h.
   strip h ''--- \<newline>x\<newline>---\<newline>B'' True True = Inr ''---\<newline>x\<newline>---\<newline>B''
    \<and> idsThenMetadata h ''--- \<newline>x\<newline>---\<newline>B'' = Inr ''B''
    \<and> strip h ''--- \<newline>x\<newline>---\<newline>B'' True True \<noteq> idsThenMetadata h ''--- \<newline>x\<newline>---\<newline>B''"
proof (rule allI)
  fix h
  show "strip h ''--- \<newline>x\<newline>---\<newline>B'' True True = Inr ''---\<newline>x\<newline>---\<newline>B''
     \<and> idsThenMetadata h ''--- \<newline>x\<newline>---\<newline>B'' = Inr ''B''
     \<and> strip h ''--- \<newline>x\<newline>---\<newline>B'' True True \<noteq> idsThenMetadata h ''--- \<newline>x\<newline>---\<newline>B''"
    by code_simp
qed

text \<open>
  C8. The pattern wants a line feed of its own before the closing \<open>---\<close>, after the line
  feed that ends the opening line. A block with no content between the two delimiter lines
  is not deleted; when a later line \<open>---\<close> follows, the text up to that line goes with it.
\<close>

theorem empty_front_matter_kept:
  "splitNl ''---\<newline>---\<newline>Body\<newline>'' = [''---'', ''---'', ''Body'', []]
   \<and> stripMetadata ''---\<newline>---\<newline>Body\<newline>'' = ''---\<newline>---\<newline>Body\<newline>''
   \<and> stripMetadata ''---\<newline>---\<newline>Body\<newline>---\<newline>more'' = ''more''
   \<and> stripMetadata ''---\<newline>tags: x\<newline>---\<newline>Body\<newline>'' = ''Body\<newline>''
   \<and> stripMetadata ''---\<newline>\<newline>---\<newline>Body\<newline>'' = ''Body\<newline>''"
  by code_simp

end
